theory Spec2Isabelle
  imports Main "HOL-Library.Sublist"
begin

section \<open>Ranked fallback chains\<close>

text \<open>
  \<^verbatim>\<open>old/puter_adapter.js\<close> keeps a ranked list of model ids and an instance field
  \<^verbatim>\<open>this.model\<close>. JavaScript's \<^verbatim>\<open>Array.prototype.indexOf\<close> returns the first
  position of the element, or \<^verbatim>\<open>-1\<close> when it is absent.
\<close>

fun indexOf_from :: "'a list \<Rightarrow> 'a \<Rightarrow> int \<Rightarrow> int" where
  "indexOf_from [] x i = -1"
| "indexOf_from (y # ys) x i = (if y = x then i else indexOf_from ys x (i + 1))"

definition indexOf :: "'a list \<Rightarrow> 'a \<Rightarrow> int" where
  "indexOf xs x = indexOf_from xs x 0"

definition PUTER_FALLBACK_ORDER :: "string list" where
  "PUTER_FALLBACK_ORDER =
     [''gpt-4o-mini'', ''claude-3-haiku'', ''gemini-2.0-flash'', ''llama-3.1-70b'']"

text \<open>
  \<^verbatim>\<open>PuterAdapter.getNextFallbackModel\<close>, with \<^verbatim>\<open>this.model\<close> as the argument and
  \<^verbatim>\<open>null\<close> as \<open>None\<close>. The function has no \<^verbatim>\<open>throw\<close>: both guards return \<^verbatim>\<open>null\<close>.
\<close>

definition next_in_order :: "string list \<Rightarrow> string \<Rightarrow> string option" where
  "next_in_order order model =
     (let currentIdx = indexOf order model in
      if currentIdx < 0 \<or> currentIdx \<ge> int (length order) - 1 then None
      else Some (order ! nat (currentIdx + 1)))"

definition puter_getNextFallbackModel :: "string \<Rightarrow> string option" where
  "puter_getNextFallbackModel model = next_in_order PUTER_FALLBACK_ORDER model"

section \<open>The per-placeholder executor: model fallback and the retry loop\<close>

text \<open>
  \<^verbatim>\<open>String.prototype.includes\<close>: the needle occurs somewhere in the text.
\<close>

fun starts_with :: "string \<Rightarrow> string \<Rightarrow> bool" where
  "starts_with s [] = True"
| "starts_with [] (p # ps) = False"
| "starts_with (c # cs) (p # ps) = (c = p \<and> starts_with cs ps)"

fun js_includes :: "string \<Rightarrow> string \<Rightarrow> bool" where
  "js_includes [] needle = (needle = [])"
| "js_includes (c # cs) needle = (starts_with (c # cs) needle \<or> js_includes cs needle)"

text \<open>
  Modelled from the spec: \<^verbatim>\<open>getNextFallbackModel\<close> of \<^verbatim>\<open>lib/model_config.js\<close>, which is
  imported by \<^verbatim>\<open>lib/llm_executor.js\<close> and is not among the sources. The spec (4.1) gives
  \<^verbatim>\<open>next(current)\<close> as the descriptor immediately after \<^verbatim>\<open>current\<close> in rank order, or
  none if \<^verbatim>\<open>current\<close> is last or unknown; the ranked list \<^verbatim>\<open>MODEL_FALLBACK_ORDER\<close> is a
  parameter. \<^verbatim>\<open>PuterAdapter.getNextFallbackModel\<close> above is the same lookup on its own list.
\<close>

definition getNextFallbackModel :: "string list \<Rightarrow> string \<Rightarrow> string option" where
  "getNextFallbackModel order currentModel = next_in_order order currentModel"

text \<open>
  An error caught by \<^verbatim>\<open>callLLM\<close>. \<^verbatim>\<open>isRateLimitError(err)\<close> and \<^verbatim>\<open>parseRetryAfter(err)\<close>
  are functions of the absent \<^verbatim>\<open>model_config.js\<close>: the error carries their answers
  (the delay in milliseconds). Whether an error is retryable is computed from its
  message, as the source does.
\<close>

record llm_error =
  message :: string
  is_rate_limit :: bool
  retry_after :: nat

definition isRetryable :: "llm_error \<Rightarrow> bool" where
  "isRetryable err =
     (js_includes (message err) ''fetch failed'' \<or> js_includes (message err) ''network''
      \<or> js_includes (message err) ''ECONNRESET'' \<or> js_includes (message err) ''timeout'')"

text \<open>
  One \<^verbatim>\<open>fetch\<close> against the generation service either yields the text and the token count
  of the response or throws inside the \<^verbatim>\<open>try\<close> block. The service is a parameter: it
  answers the \<open>n\<close>-th request of the run, made against a given model.
\<close>

datatype fetch_outcome = Responded string nat | Threw llm_error

type_synonym service = "nat \<Rightarrow> string \<Rightarrow> fetch_outcome"

text \<open>
  The fields of \<^verbatim>\<open>LLMExecutor\<close> that \<^verbatim>\<open>callLLM\<close> and \<^verbatim>\<open>fallbackToNextModel\<close> read and
  write. \<open>fetched\<close> and \<open>slept\<close> are the trace of the effects: the model of every request
  sent and the duration of every \<^verbatim>\<open>sleep\<close>, oldest first. The entries of
  \<^verbatim>\<open>fallbackHistory\<close> and \<^verbatim>\<open>stats.fallbacks\<close> are the pairs (from, to); their timestamp is
  left out.
\<close>

record executor =
  currentModel :: string
  modelSwitches :: nat
  fallbackHistory :: "(string \<times> string) list"
  stats_fallbacks :: "(string \<times> string) list"
  promptsExecuted :: nat
  tokensUsed :: nat
  modelUsed :: string
  stats_errors :: "(string \<times> string \<times> string) list"
  fetched :: "string list"
  slept :: "nat list"

record config =
  MODEL_FALLBACK_ORDER :: "string list"
  maxRetries :: nat
  dryRun :: bool
  apiKey_set :: bool

text \<open>
  \<^verbatim>\<open>fallbackToNextModel\<close>. \<^verbatim>\<open>!nextModel\<close> holds for \<^verbatim>\<open>null\<close> and for the empty string.
\<close>

definition fallbackToNextModel :: "config \<Rightarrow> executor \<Rightarrow> bool \<times> executor" where
  "fallbackToNextModel cfg ex =
     (case getNextFallbackModel (MODEL_FALLBACK_ORDER cfg) (currentModel ex) of
        None \<Rightarrow> (False, ex)
      | Some nextModel \<Rightarrow>
          if nextModel = [] then (False, ex)
          else (True, ex\<lparr> currentModel := nextModel,
                           modelSwitches := modelSwitches ex + 1,
                           fallbackHistory := fallbackHistory ex @ [(currentModel ex, nextModel)],
                           stats_fallbacks := stats_fallbacks ex @ [(currentModel ex, nextModel)] \<rparr>))"

definition sleep :: "nat \<Rightarrow> executor \<Rightarrow> executor" where
  "sleep ms ex = ex\<lparr> slept := slept ex @ [ms] \<rparr>"

text \<open>
  The retry loop of \<^verbatim>\<open>callLLM\<close>, entered with \<^verbatim>\<open>attempt \<le> maxRetries\<close>. One call of
  \<open>callLLM_loop\<close> is one iteration: the request, and in the \<^verbatim>\<open>catch\<close> block the choice
  between \<^verbatim>\<open>continue\<close> (the recursive calls, after \<^verbatim>\<open>attempt++\<close> and the loop test) and
  leaving the loop with \<^verbatim>\<open>lastError\<close>. \<^verbatim>\<open>attempt = -1; continue\<close> restarts at attempt 0.
\<close>

function callLLM_loop ::
  "config \<Rightarrow> service \<Rightarrow> nat \<Rightarrow> bool \<Rightarrow> executor \<Rightarrow> (llm_error + string \<times> nat) \<times> executor"
where
  "callLLM_loop cfg fetch attempt fallbackAttempted ex =
     (let ex1 = ex\<lparr> fetched := fetched ex @ [currentModel ex] \<rparr> in
      case fetch (length (fetched ex)) (currentModel ex) of
        Responded content tokens \<Rightarrow>
          (Inr (content, tokens),
           ex1\<lparr> promptsExecuted := promptsExecuted ex1 + 1,
                 tokensUsed := tokensUsed ex1 + tokens,
                 modelUsed := currentModel ex1 \<rparr>)
      | Threw err \<Rightarrow>
          if is_rate_limit err \<and> \<not> fallbackAttempted then
            (if fst (fallbackToNextModel cfg ex1) then
               callLLM_loop cfg fetch 0 True (snd (fallbackToNextModel cfg ex1))
             else
               (let ex2 = sleep (retry_after err) (snd (fallbackToNextModel cfg ex1)) in
                if attempt + 1 \<le> maxRetries cfg
                then callLLM_loop cfg fetch (attempt + 1) fallbackAttempted ex2
                else (Inl err, ex2)))
          else if isRetryable err \<and> attempt < maxRetries cfg then
            callLLM_loop cfg fetch (attempt + 1) fallbackAttempted
              (sleep (5000 * (attempt + 1)) ex1)
          else (Inl err, ex1))"
  by pat_completeness auto
termination
  by (relation "measure (\<lambda>(cfg, fetch, attempt, fallbackAttempted, ex).
        (if fallbackAttempted then 0 else maxRetries cfg + 2) + (maxRetries cfg + 1 - attempt))")
    auto

declare callLLM_loop.simps [simp del]

text \<open>
  \<^verbatim>\<open>callLLM(prompt, context)\<close> of \<^verbatim>\<open>lib/llm_executor.js\<close>. The prompt is its \<^verbatim>\<open>prompt_id\<close>;
  the rendered request body only reaches the service, which is arbitrary here. After the
  loop the error is pushed to \<^verbatim>\<open>stats.errors\<close> and thrown again.
\<close>

definition api_key_error :: llm_error where
  "api_key_error =
     \<lparr> message = ''Gemini API key not set. Set GEMINI_API_KEY or pass apiKey option.'',
       is_rate_limit = False, retry_after = 0 \<rparr>"

definition callLLM ::
  "config \<Rightarrow> service \<Rightarrow> string \<Rightarrow> executor \<Rightarrow> (llm_error + string \<times> nat) \<times> executor"
where
  "callLLM cfg fetch prompt_id ex =
     (if dryRun cfg then
        (Inr (''[DRY_RUN: Would call LLM with prompt '' @ prompt_id @ '']'', 0), ex)
      else if \<not> apiKey_set cfg then (Inl api_key_error, ex)
      else
        (case callLLM_loop cfg fetch 0 False ex of
           (Inr r, ex') \<Rightarrow> (Inr r, ex')
         | (Inl lastError, ex') \<Rightarrow>
             (Inl lastError,
              ex'\<lparr> stats_errors := stats_errors ex'
                     @ [(prompt_id, currentModel ex', message lastError)] \<rparr>)))"

text \<open>
  A run of the executor: the generation calls it makes, one after the other, on the same
  instance (\<^verbatim>\<open>fillPlaceholders\<close> calls \<^verbatim>\<open>callLLM\<close> once per placeholder and goes on after
  a failed call).
\<close>

fun run_calls :: "config \<Rightarrow> service \<Rightarrow> string list \<Rightarrow> executor \<Rightarrow> executor" where
  "run_calls cfg fetch [] ex = ex"
| "run_calls cfg fetch (p # ps) ex = run_calls cfg fetch ps (snd (callLLM cfg fetch p ex))"

text \<open>
  The constructor's initial state for a start model.
\<close>

definition new_executor :: "string \<Rightarrow> executor" where
  "new_executor model =
     \<lparr> currentModel = model, modelSwitches = 0, fallbackHistory = [], stats_fallbacks = [],
       promptsExecuted = 0, tokensUsed = 0, modelUsed = model, stats_errors = [],
       fetched = [], slept = [] \<rparr>"

text \<open>
  The position of a model in the ranked fallback order (\<open>-1\<close> for a model that is not in it).
\<close>

definition rank :: "config \<Rightarrow> string \<Rightarrow> int" where
  "rank cfg m = indexOf (MODEL_FALLBACK_ORDER cfg) m"

text \<open>
  One move of the model pointer: it stays, or it goes to the successor in the order. The
  trace of a run together with the pointer is well formed when every neighbouring pair is
  such a move; \<open>moved\<close> is the same in terms of ranks.
\<close>

definition step :: "config \<Rightarrow> string \<Rightarrow> string \<Rightarrow> bool" where
  "step cfg m m' = (m' = m \<or> getNextFallbackModel (MODEL_FALLBACK_ORDER cfg) m = Some m')"

definition trace_ok :: "config \<Rightarrow> executor \<Rightarrow> bool" where
  "trace_ok cfg ex = successively (step cfg) (fetched ex @ [currentModel ex])"

definition moved :: "config \<Rightarrow> string \<Rightarrow> string \<Rightarrow> bool" where
  "moved cfg m m' = (m' = m \<or> rank cfg m < rank cfg m')"

text \<open>
  A service that answers every request with a rate-limit error signalling the retry-after
  delay \<open>r\<close>.
\<close>

definition always_rate_limited :: "service \<Rightarrow> nat \<Rightarrow> bool" where
  "always_rate_limited fetch r =
     (\<forall>n m. \<exists>e. fetch n m = Threw e \<and> is_rate_limit e \<and> retry_after e = r)"

text \<open>
  Sample data: the first three models of the documented fallback order, a service that is
  always rate limited, one that recovers after three requests, and one whose first
  request only is rate limited.
\<close>

definition rate_limit_429 :: llm_error where
  "rate_limit_429 =
     \<lparr> message = ''Gemini API error 429: quota exceeded'', is_rate_limit = True,
       retry_after = 60000 \<rparr>"


definition three_models :: config where
  "three_models =
     \<lparr> MODEL_FALLBACK_ORDER = [''gemini-2.5-flash'', ''gemini-2.5-flash-lite'', ''gemma-3-27b''],
       maxRetries = 2, dryRun = False, apiKey_set = True \<rparr>"

definition flaky :: service where
  "flaky n m = (if n < 3 then Threw rate_limit_429 else Responded ''ok'' 7)"


section \<open>JSON documents and the path accessors\<close>

text \<open>
  A report is a JSON tree. Strings are lists of 8-bit characters (code units below 256).
  An object is the list of its own properties in the order of their creation, an array
  the list of its elements. \<open>JUndefined\<close> is JavaScript's \<^verbatim>\<open>undefined\<close>; inside an array it stands for a
  hole (an element that was never written). \<^verbatim>\<open>JSON.parse\<close> produces neither.

  Property access is modelled on own properties. What a JSON tree cannot represent is
  reported as the fault \<open>Unmodelled\<close> and never silently approximated: a property other
  than an index or \<^verbatim>\<open>length\<close> on an array, reading a name inherited from
  \<^verbatim>\<open>Object.prototype\<close> that the object does not own, a new prototype, and any property of
  a number or boolean. \<open>TypeError\<close> and \<open>RangeError\<close> are the exceptions JavaScript throws.
\<close>

datatype json =
    JNull
  | JBool bool
  | JNum int
  | JStr string
  | JArr "json list"
  | JObj "(string \<times> json) list"
  | JUndefined

datatype js_fault = TypeError | RangeError | Unmodelled

definition inherited_object_names :: "string list" where
  "inherited_object_names =
     [''constructor'', ''__defineGetter__'', ''__defineSetter__'', ''hasOwnProperty'',
      ''__lookupGetter__'', ''__lookupSetter__'', ''isPrototypeOf'', ''propertyIsEnumerable'',
      ''toString'', ''valueOf'', ''__proto__'', ''toLocaleString'']"

definition is_digit :: "char \<Rightarrow> bool" where
  "is_digit c = (c \<in> set ''0123456789'')"

definition all_digits :: "string \<Rightarrow> bool" where
  "all_digits s = (s \<noteq> [] \<and> list_all is_digit s)"

text \<open>
  White space of \<^verbatim>\<open>String.prototype.trim\<close>, of \<^verbatim>\<open>\s\<close> and of the string-to-number
  conversion, among the 8-bit characters: tab, line feed, vertical tab, form feed,
  carriage return, space and no-break space.
\<close>

definition js_space :: "char \<Rightarrow> bool" where
  "js_space c = (c \<in> set [CHR 0x09, CHR 0x0A, CHR 0x0B, CHR 0x0C, CHR 0x0D, CHR 0x20, CHR 0xA0])"

definition js_trim :: "string \<Rightarrow> string" where
  "js_trim s = rev (dropWhile js_space (rev (dropWhile js_space s)))"

text \<open>
  \<^verbatim>\<open>isNaN(s)\<close> for a string \<open>s\<close>: the string is converted with \<^verbatim>\<open>Number\<close>, which
  accepts, between optional white space, nothing at all (the value 0), a signed decimal
  literal (digits with an optional fraction and exponent, or \<^verbatim>\<open>Infinity\<close>) or an unsigned
  hexadecimal, octal or binary literal.
\<close>

definition exponent_ok :: "string \<Rightarrow> bool" where
  "exponent_ok r =
     (case r of
        [] \<Rightarrow> True
      | e # r' \<Rightarrow>
          (e = CHR ''e'' \<or> e = CHR ''E'') \<and>
          (case r' of
             [] \<Rightarrow> False
           | s # t \<Rightarrow> if s = CHR ''+'' \<or> s = CHR ''-'' then all_digits t else all_digits r'))"

definition str_unsigned_decimal :: "string \<Rightarrow> bool" where
  "str_unsigned_decimal s =
     (s = ''Infinity'' \<or>
      (let ip = takeWhile is_digit s; r1 = dropWhile is_digit s in
       case r1 of
         [] \<Rightarrow> ip \<noteq> []
       | c # r2 \<Rightarrow>
           if c = CHR ''.'' then
             (let fp = takeWhile is_digit r2; r3 = dropWhile is_digit r2 in
              (ip \<noteq> [] \<or> fp \<noteq> []) \<and> exponent_ok r3)
           else ip \<noteq> [] \<and> exponent_ok r1))"

definition str_decimal :: "string \<Rightarrow> bool" where
  "str_decimal s =
     (case s of
        [] \<Rightarrow> False
      | c # r \<Rightarrow> if c = CHR ''+'' \<or> c = CHR ''-'' then str_unsigned_decimal r
                 else str_unsigned_decimal s)"

definition str_non_decimal :: "string \<Rightarrow> bool" where
  "str_non_decimal s =
     (case s of
        z # x # r \<Rightarrow>
          z = CHR ''0'' \<and> r \<noteq> [] \<and>
          ((x \<in> set ''xX'' \<and> list_all (\<lambda>c. c \<in> set ''0123456789abcdefABCDEF'') r)
           \<or> (x \<in> set ''oO'' \<and> list_all (\<lambda>c. c \<in> set ''01234567'') r)
           \<or> (x \<in> set ''bB'' \<and> list_all (\<lambda>c. c \<in> set ''01'') r))
      | _ \<Rightarrow> False)"

definition js_isNaN :: "string \<Rightarrow> bool" where
  "js_isNaN s = (let t = js_trim s in \<not> (t = [] \<or> str_decimal t \<or> str_non_decimal t))"

text \<open>
  A property name is an array index when it is the canonical decimal form of a number
  below \<open>2^32 - 1\<close>: digits without a leading zero, or \<^verbatim>\<open>0\<close> itself.
\<close>

definition digit_value :: "char \<Rightarrow> int" where
  "digit_value c = of_char c - 48"

definition decimal_value :: "string \<Rightarrow> int" where
  "decimal_value s = foldl (\<lambda>n c. 10 * n + digit_value c) 0 s"

definition array_index :: "string \<Rightarrow> nat option" where
  "array_index s =
     (if all_digits s \<and> (s = ''0'' \<or> hd s \<noteq> CHR ''0'') \<and> decimal_value s < 4294967295
      then Some (nat (decimal_value s)) else None)"

text \<open>
  The \<^verbatim>\<open>in\<close> operator, reading a property and assigning one (in a module, so in strict
  mode). Reading a hole gives \<^verbatim>\<open>undefined\<close>; assigning past the end of an array leaves
  holes before the new element.
\<close>

fun has_prop :: "json \<Rightarrow> string \<Rightarrow> js_fault + bool" where
  "has_prop (JObj kvs) k =
     (if k \<in> set (map fst kvs) then Inr True
      else if k \<in> set inherited_object_names then Inl Unmodelled
      else Inr False)"
| "has_prop (JArr xs) k =
     (case array_index k of
        Some i \<Rightarrow> Inr (i < length xs \<and> xs ! i \<noteq> JUndefined)
      | None \<Rightarrow> if k = ''length'' then Inr True else Inl Unmodelled)"
| "has_prop _ k = Inl TypeError"

fun get_prop :: "json \<Rightarrow> string \<Rightarrow> js_fault + json" where
  "get_prop (JObj kvs) k =
     (case map_of kvs k of
        Some v \<Rightarrow> Inr v
      | None \<Rightarrow> if k \<in> set inherited_object_names then Inl Unmodelled else Inr JUndefined)"
| "get_prop (JArr xs) k =
     (case array_index k of
        Some i \<Rightarrow> Inr (if i < length xs then xs ! i else JUndefined)
      | None \<Rightarrow> if k = ''length'' then Inr (JNum (int (length xs))) else Inl Unmodelled)"
| "get_prop (JStr s) k =
     (case array_index k of
        Some i \<Rightarrow> Inr (if i < length s then JStr [s ! i] else JUndefined)
      | None \<Rightarrow> if k = ''length'' then Inr (JNum (int (length s))) else Inl Unmodelled)"
| "get_prop JNull k = Inl TypeError"
| "get_prop JUndefined k = Inl TypeError"
| "get_prop _ k = Inl Unmodelled"

fun alist_update :: "string \<Rightarrow> json \<Rightarrow> (string \<times> json) list \<Rightarrow> (string \<times> json) list" where
  "alist_update k v [] = [(k, v)]"
| "alist_update k v (p # ps) = (if fst p = k then (k, v) # ps else p # alist_update k v ps)"

text \<open>
  Assigning the \<^verbatim>\<open>length\<close> of an array converts the value with \<^verbatim>\<open>ToNumber\<close> and throws a
  \<^verbatim>\<open>RangeError\<close> unless the number is an integer from 0 to \<open>2^32 - 1\<close>. The conversion is
  written out for numbers, booleans, \<^verbatim>\<open>null\<close>, \<^verbatim>\<open>undefined\<close>, the empty array, an object
  that owns neither \<^verbatim>\<open>valueOf\<close> nor \<^verbatim>\<open>toString\<close>, and for a string that is empty, an
  array index, or not a numeric literal.
\<close>

definition to_length :: "json \<Rightarrow> js_fault + nat" where
  "to_length v =
     (case v of
        JNum n \<Rightarrow> if 0 \<le> n \<and> n < 4294967296 then Inr (nat n) else Inl RangeError
      | JBool b \<Rightarrow> Inr (if b then 1 else 0)
      | JNull \<Rightarrow> Inr 0
      | JUndefined \<Rightarrow> Inl RangeError
      | JStr s \<Rightarrow>
          if js_trim s = [] then Inr 0
          else (case array_index (js_trim s) of
                  Some n \<Rightarrow> Inr n
                | None \<Rightarrow> if js_isNaN s then Inl RangeError else Inl Unmodelled)
      | JArr ys \<Rightarrow> if ys = [] then Inr 0 else Inl Unmodelled
      | JObj kvs \<Rightarrow>
          if ''valueOf'' \<in> set (map fst kvs) \<or> ''toString'' \<in> set (map fst kvs)
          then Inl Unmodelled else Inl RangeError)"

text \<open>
  Assignment. \<^verbatim>\<open>__proto__\<close> on an object that does not own that name is the setter of
  \<^verbatim>\<open>Object.prototype\<close>: it ignores a value that is neither an object nor \<^verbatim>\<open>null\<close> and
  leaves the object as it is. Assigning to a property of a string, number, boolean,
  \<^verbatim>\<open>null\<close> or \<^verbatim>\<open>undefined\<close> throws in strict mode.
\<close>

fun set_prop :: "json \<Rightarrow> string \<Rightarrow> json \<Rightarrow> js_fault + json" where
  "set_prop (JObj kvs) k v =
     (if k = ''__proto__'' \<and> k \<notin> set (map fst kvs) then
        (case v of
           JObj _ \<Rightarrow> Inl Unmodelled
         | JArr _ \<Rightarrow> Inl Unmodelled
         | JNull \<Rightarrow> Inl Unmodelled
         | _ \<Rightarrow> Inr (JObj kvs))
      else Inr (JObj (alist_update k v kvs)))"
| "set_prop (JArr xs) k v =
     (case array_index k of
        Some i \<Rightarrow>
          Inr (JArr (if i < length xs then xs[i := v]
                     else xs @ replicate (i - length xs) JUndefined @ [v]))
      | None \<Rightarrow>
          if k = ''length'' then
            (case to_length v of
               Inl e \<Rightarrow> Inl e
             | Inr n \<Rightarrow>
                 Inr (JArr (if n \<le> length xs then take n xs
                            else xs @ replicate (n - length xs) JUndefined)))
          else Inl Unmodelled)"
| "set_prop _ k v = Inl TypeError"

text \<open>
  \<^verbatim>\<open>path.replace(/\[(\d+)\]/g, '.$1').split('.')\<close>: every bracketed run of digits becomes
  a dot and the digits, then the text is cut at the dots.
\<close>

definition bracket_digits :: "string \<Rightarrow> (string \<times> string) option" where
  "bracket_digits s =
     (let ds = takeWhile is_digit s; r = dropWhile is_digit s in
      case r of
        [] \<Rightarrow> None
      | c # r' \<Rightarrow> if ds \<noteq> [] \<and> c = CHR '']'' then Some (ds, r') else None)"

function brackets_to_dots :: "string \<Rightarrow> string" where
  "brackets_to_dots [] = []"
| "brackets_to_dots (c # cs) =
     (if c = CHR ''['' then
        (case bracket_digits cs of
           Some (ds, r) \<Rightarrow> CHR ''.'' # ds @ brackets_to_dots r
         | None \<Rightarrow> c # brackets_to_dots cs)
      else c # brackets_to_dots cs)"
  by pat_completeness auto
termination
proof (relation "measure length")
  fix c :: char and cs x2 ds r
  assume "bracket_digits cs = Some x2" and "(ds, r) = x2"
  then have "bracket_digits cs = Some (ds, r)" by simp
  then have "r = tl (dropWhile is_digit cs)"
    by (auto simp: bracket_digits_def Let_def split: list.splits if_splits)
  moreover have "length (tl (dropWhile is_digit cs)) \<le> length cs"
    using length_dropWhile_le [of is_digit cs] by simp
  ultimately show "(r, c # cs) \<in> measure length" by simp
qed simp_all

fun split_on :: "char \<Rightarrow> string \<Rightarrow> string list" where
  "split_on d [] = [[]]"
| "split_on d (c # cs) =
     (if c = d then [] # split_on d cs
      else (case split_on d cs of
              w # ws \<Rightarrow> (c # w) # ws
            | [] \<Rightarrow> [[c]]))"

definition path_parts :: "string \<Rightarrow> string list" where
  "path_parts path = split_on CHR ''.'' (brackets_to_dots path)"

text \<open>
  \<^verbatim>\<open>setAtPath(obj, path, value)\<close>. The source walks \<^verbatim>\<open>current\<close> down the object graph and
  assigns in place; on a tree the changed child is put back into its parent. A missing
  part is created first (\<^verbatim>\<open>current[part] = isNaN(parts[i + 1]) ? {} : []\<close>), as in the
  source, so that a fault of that assignment comes before the rest of the walk. The first
  equation is the source's behaviour for an empty list of parts (\<^verbatim>\<open>parts[-1]\<close> is
  \<^verbatim>\<open>undefined\<close>); \<^verbatim>\<open>split\<close> never returns one.
\<close>

fun setAtPath_parts :: "json \<Rightarrow> string list \<Rightarrow> json \<Rightarrow> js_fault + json" where
  "setAtPath_parts current [] v = set_prop current ''undefined'' v"
| "setAtPath_parts current [part] v = set_prop current part v"
| "setAtPath_parts current (part # next # rest) v =
     (case has_prop current part of
        Inl e \<Rightarrow> Inl e
      | Inr True \<Rightarrow>
          (case get_prop current part of
             Inl e \<Rightarrow> Inl e
           | Inr child \<Rightarrow>
               (case setAtPath_parts child (next # rest) v of
                  Inl e \<Rightarrow> Inl e
                | Inr child' \<Rightarrow> set_prop current part child'))
      | Inr False \<Rightarrow>
          (let fresh = (if js_isNaN next then JObj [] else JArr []) in
           case set_prop current part fresh of
             Inl e \<Rightarrow> Inl e
           | Inr current' \<Rightarrow>
               (case setAtPath_parts fresh (next # rest) v of
                  Inl e \<Rightarrow> Inl e
                | Inr child' \<Rightarrow> set_prop current' part child')))"

definition setAtPath :: "json \<Rightarrow> string \<Rightarrow> json \<Rightarrow> js_fault + json" where
  "setAtPath obj path v = setAtPath_parts obj (path_parts path) v"

text \<open>
  \<^verbatim>\<open>getAtPath(obj, path)\<close>.
\<close>

fun getAtPath_parts :: "json \<Rightarrow> string list \<Rightarrow> js_fault + json" where
  "getAtPath_parts current [] = Inr current"
| "getAtPath_parts current (part # rest) =
     (if current = JUndefined \<or> current = JNull then Inr JUndefined
      else (case get_prop current part of
              Inl e \<Rightarrow> Inl e
            | Inr child \<Rightarrow> getAtPath_parts child rest))"

definition getAtPath :: "json \<Rightarrow> string \<Rightarrow> js_fault + json" where
  "getAtPath obj path = getAtPath_parts obj (path_parts path)"

text \<open>
  The write of \<^verbatim>\<open>fillPlaceholders\<close> (lines 615 to 626): for an array output of a prompt of
  type \<^verbatim>\<open>array_of_strings\<close> the target is the parent array when the placeholder's path
  matches \<^verbatim>\<open>/^(.+)\[\d+\]$/\<close>. The dot of the pattern does not match a line feed or a
  carriage return.
\<close>

definition arrayPathMatch :: "string \<Rightarrow> string option" where
  "arrayPathMatch path =
     (case rev path of
        [] \<Rightarrow> None
      | c # r \<Rightarrow>
          if c \<noteq> CHR '']'' then None
          else
            (let ds = takeWhile is_digit r; r' = dropWhile is_digit r in
             case r' of
               [] \<Rightarrow> None
             | b # q \<Rightarrow>
                 if ds \<noteq> [] \<and> b = CHR ''['' \<and> q \<noteq> []
                    \<and> list_all (\<lambda>x. x \<noteq> CHR 0x0A \<and> x \<noteq> CHR 0x0D) q
                 then Some (rev q) else None))"

definition is_array :: "json \<Rightarrow> bool" where
  "is_array v = (case v of JArr xs \<Rightarrow> True | _ \<Rightarrow> False)"

definition targetPath_for :: "string \<Rightarrow> json \<Rightarrow> string \<Rightarrow> string" where
  "targetPath_for output_type output path =
     (if output_type = ''array_of_strings'' \<and> is_array output then
        (case arrayPathMatch path of Some parent \<Rightarrow> parent | None \<Rightarrow> path)
      else path)"

definition write_output :: "json \<Rightarrow> string \<Rightarrow> json \<Rightarrow> string \<Rightarrow> js_fault + json" where
  "write_output filledReport output_type output path =
     setAtPath filledReport (targetPath_for output_type output path) output"

section \<open>Text patterns\<close>

text \<open>
  Each regular expression of the source is written out as a function that answers, for
  the text that starts at a position, the length of the match at that position (or none).
  The expressions used by the polish pass are anchored on their first character and have
  one way to match, so that the leftmost-greedy search of the engine is the first
  position at which the function answers.

  \<open>bracket_token p least\<close> is \<^verbatim>\<open>p[^\]]*\]\<close> for \<open>least = 0\<close> and \<^verbatim>\<open>p[^\]]+\]\<close> for
  \<open>least = 1\<close>, where \<open>p\<close> is literal text: the match ends at the first closing bracket.
\<close>

definition span_token :: "string \<Rightarrow> char \<Rightarrow> nat \<Rightarrow> string \<Rightarrow> nat option" where
  "span_token p closing least s =
     (if starts_with s p then
        (let r = drop (length p) s; k = length (takeWhile (\<lambda>c. c \<noteq> closing) r) in
         if k < length r \<and> least \<le> k then Some (length p + k + 1) else None)
      else None)"

definition bracket_token :: "string \<Rightarrow> nat \<Rightarrow> string \<Rightarrow> nat option" where
  "bracket_token p least s = span_token p CHR '']'' least s"

text \<open>
  Matching with the \<^verbatim>\<open>i\<close> flag compares letters without their case. Among the 8-bit
  characters only the letters A to Z and a to z are identified by it.
\<close>

definition lower :: "char \<Rightarrow> char" where
  "lower c =
     (case map_of (zip ''ABCDEFGHIJKLMNOPQRSTUVWXYZ'' ''abcdefghijklmnopqrstuvwxyz'') c of
        Some l \<Rightarrow> l
      | None \<Rightarrow> c)"

fun ci_starts_with :: "string \<Rightarrow> string \<Rightarrow> bool" where
  "ci_starts_with s [] = True"
| "ci_starts_with [] (p # ps) = False"
| "ci_starts_with (c # cs) (p # ps) = (lower c = lower p \<and> ci_starts_with cs ps)"

definition literal_ci :: "string \<Rightarrow> string \<Rightarrow> nat option" where
  "literal_ci p s = (if ci_starts_with s p then Some (length p) else None)"

definition literal :: "string \<Rightarrow> string \<Rightarrow> nat option" where
  "literal p s = (if starts_with s p then Some (length p) else None)"

text \<open>
  \<^verbatim>\<open>```(?:json|html|text)?\<close>: three backticks and, when one follows, the first of the
  language names that follows.
\<close>

definition fence_token :: "string list \<Rightarrow> string \<Rightarrow> nat option" where
  "fence_token langs s =
     (if starts_with s ''```'' then
        Some (3 + (case find (\<lambda>l. starts_with (drop 3 s) l) langs of
                     Some l \<Rightarrow> length l
                   | None \<Rightarrow> 0))
      else None)"

text \<open>
  \<^verbatim>\<open>\[(?:specific|start|end|missing|level)[^\]]*\]\<close> with the \<^verbatim>\<open>i\<close> flag.
\<close>

definition template_var_token :: "string \<Rightarrow> nat option" where
  "template_var_token s =
     (case s of
        [] \<Rightarrow> None
      | c # r \<Rightarrow>
          if c = CHR ''[''
             \<and> list_ex (ci_starts_with r) [''specific'', ''start'', ''end'', ''missing'', ''level'']
          then (let k = length (takeWhile (\<lambda>c. c \<noteq> CHR '']'') r) in
                if k < length r then Some (k + 2) else None)
          else None)"

text \<open>
  \<^verbatim>\<open>/  +/\<close>: a run of two or more spaces.
\<close>

definition spaces_token :: "string \<Rightarrow> nat option" where
  "spaces_token s =
     (let k = length (takeWhile (\<lambda>c. c = CHR '' '') s) in if 2 \<le> k then Some k else None)"

text \<open>
  \<^verbatim>\<open>text.replace(re, f)\<close> and \<^verbatim>\<open>(text.match(re) || []).length\<close> for a global expression:
  the text is scanned from the left; a match is replaced (or counted) and the scan goes
  on behind it; after an empty match the scan moves on by one character.
\<close>

function replace_all :: "(string \<Rightarrow> nat option) \<Rightarrow> (string \<Rightarrow> string) \<Rightarrow> string \<Rightarrow> string" where
  "replace_all m f [] = (case m [] of None \<Rightarrow> [] | Some n \<Rightarrow> f [])"
| "replace_all m f (c # cs) =
     (case m (c # cs) of
        None \<Rightarrow> c # replace_all m f cs
      | Some 0 \<Rightarrow> f [] @ c # replace_all m f cs
      | Some (Suc n) \<Rightarrow> f (take (Suc n) (c # cs)) @ replace_all m f (drop n cs))"
  by pat_completeness auto
termination
  by (relation "measure (\<lambda>(m, f, s). length s)") auto

function count_matches :: "(string \<Rightarrow> nat option) \<Rightarrow> string \<Rightarrow> nat" where
  "count_matches m [] = (case m [] of None \<Rightarrow> 0 | Some n \<Rightarrow> 1)"
| "count_matches m (c # cs) =
     (case m (c # cs) of
        None \<Rightarrow> count_matches m cs
      | Some 0 \<Rightarrow> 1 + count_matches m cs
      | Some (Suc n) \<Rightarrow> 1 + count_matches m (drop n cs))"
  by pat_completeness auto
termination
  by (relation "measure (\<lambda>(m, s). length s)") auto

text \<open>
  The same scan for an expression with the anchors \<^verbatim>\<open>^\<close> and \<^verbatim>\<open>$\<close> under the \<^verbatim>\<open>m\<close> flag:
  the function also sees the character before the position (none at the start of the
  text). A line ends at a line feed or a carriage return.
\<close>

definition line_terminator :: "char \<Rightarrow> bool" where
  "line_terminator c = (c = CHR 0x0A \<or> c = CHR 0x0D)"

definition at_line_start :: "char option \<Rightarrow> bool" where
  "at_line_start prev = (case prev of None \<Rightarrow> True | Some c \<Rightarrow> line_terminator c)"

definition at_line_end :: "string \<Rightarrow> bool" where
  "at_line_end r = (case r of [] \<Rightarrow> True | c # _ \<Rightarrow> line_terminator c)"

function replace_all_ctx ::
  "(char option \<Rightarrow> string \<Rightarrow> nat option) \<Rightarrow> (string \<Rightarrow> string) \<Rightarrow> char option \<Rightarrow> string \<Rightarrow> string"
where
  "replace_all_ctx m f prev [] = (case m prev [] of None \<Rightarrow> [] | Some n \<Rightarrow> f [])"
| "replace_all_ctx m f prev (c # cs) =
     (case m prev (c # cs) of
        None \<Rightarrow> c # replace_all_ctx m f (Some c) cs
      | Some 0 \<Rightarrow> f [] @ c # replace_all_ctx m f (Some c) cs
      | Some (Suc n) \<Rightarrow>
          f (take (Suc n) (c # cs))
            @ replace_all_ctx m f (Some (last (take (Suc n) (c # cs)))) (drop n cs))"
  by pat_completeness auto
termination
  by (relation "measure (\<lambda>(m, f, prev, s). length s)") auto

text \<open>
  \<^verbatim>\<open>/^```(?:json|html|text|markdown)?\s*\n?/gim\<close> (the language names are a parameter):
  at the start of a line, three backticks, the first language name that follows in any
  case of its letters, and all the white space behind it (which leaves nothing for the
  optional line feed). \<^verbatim>\<open>/\n?```$/gim\<close>: three backticks at the end of a line, with the
  line feed before them when the match starts there.
\<close>

definition fence_open :: "string list \<Rightarrow> char option \<Rightarrow> string \<Rightarrow> nat option" where
  "fence_open langs prev s =
     (if at_line_start prev \<and> starts_with s ''```'' then
        (let n = (case find (\<lambda>l. ci_starts_with (drop 3 s) l) langs of
                    Some l \<Rightarrow> length l
                  | None \<Rightarrow> 0)
         in Some (3 + n + length (takeWhile js_space (drop (3 + n) s))))
      else None)"

definition fence_close :: "char option \<Rightarrow> string \<Rightarrow> nat option" where
  "fence_close prev s =
     (if starts_with s (CHR 0x0A # ''```'') \<and> at_line_end (drop 4 s) then Some 4
      else if starts_with s ''```'' \<and> at_line_end (drop 3 s) then Some 3
      else None)"

definition stripMarkdown :: "string \<Rightarrow> string" where
  "stripMarkdown text =
     js_trim
       (replace_all_ctx fence_close (\<lambda>_. []) None
          (replace_all_ctx (fence_open [''json'', ''html'', ''text'', ''markdown'']) (\<lambda>_. []) None
             text))"

text \<open>
  The decimal numeral of a count, as a template literal prints it.
\<close>

function show_nat :: "nat \<Rightarrow> string" where
  "show_nat n =
     (if n < 10 then [''0123456789'' ! n]
      else show_nat (n div 10) @ [''0123456789'' ! (n mod 10)])"
  by pat_completeness auto
termination
  by (relation "measure id") auto

declare show_nat.simps [simp del]

section \<open>The deterministic polish pass\<close>

text \<open>
  An entry of the change log. The dry-run entry of \<^verbatim>\<open>polishHTML\<close> and the synthetic
  \<^verbatim>\<open>no_changes\<close> entry have no count, the dry-run entry has no type either.
\<close>

record change =
  ctype :: "string option"
  ccount :: "nat option"
  reason :: string

definition marker_token :: "string \<Rightarrow> nat option" where
  "marker_token = bracket_token ''[LLM_PLACEHOLDER:'' 1"

definition insufficient_token :: "string \<Rightarrow> nat option" where
  "insufficient_token = bracket_token ''[INSUFFICIENT_EVIDENCE'' 0"

text \<open>
  The replacing expression of step 3 is \<^verbatim>\<open>\[LLM_PLACEHOLDER:\s*([^\]]+)\]\<close>. It matches
  where the counting expression \<^verbatim>\<open>\[LLM_PLACEHOLDER:[^\]]+\]\<close> does and as far (white
  space is not a closing bracket). Its group is the text between the colon and the
  bracket without the leading white space, or the last white space character when there
  is nothing else.
\<close>

definition placeholder_field :: "string \<Rightarrow> string" where
  "placeholder_field matched =
     (let content = butlast (drop (length ''[LLM_PLACEHOLDER:'') matched);
          t = dropWhile js_space content
      in if t = [] then [last content] else t)"

definition default_text :: "string \<Rightarrow> string" where
  "default_text field =
     (if js_includes field ''finding_summary'' then ''Issue identified requiring attention.''
      else if js_includes field ''finding_risk''
        then ''Risk: Potential impact on operations if not addressed.''
      else if js_includes field ''fix_problem'' then ''Process inefficiency identified.''
      else if js_includes field ''fix_solution''
        then ''Implement automation to streamline workflow.''
      else if js_includes field ''impact_basis''
        then ''This fix will reduce manual effort and improve efficiency.''
      else if js_includes field ''cta_headline'' then ''Ready to fix your workflow?''
      else if js_includes field ''cta_subtext''
        then ''Schedule a call to discuss implementation.''
      else if js_includes field ''executive_summary''
        then ''Analysis reveals opportunities for process improvement.''
      else if js_includes field ''scope_statement''
        then ''This audit assessed the workflow processes.''
      else if js_includes field ''math_defender'' then ''Calculations based on provided metrics.''
      else ''See analysis details.'')"

text \<open>
  Step 4: the seven replacements, in the order of the source.
\<close>

definition template_vars :: "(string \<times> string) list" where
  "template_vars =
     [(''[specific data point]'', ''key metrics''),
      (''[start date]'', ''the analysis start date''),
      (''[end date]'', ''the analysis end date''),
      (''[missing period/segment]'', ''certain time periods''),
      (''[specific data category]'', ''certain categories''),
      (''[level of detail]'', ''detailed''),
      (''[specific area of impact]'', ''specific areas'')]"

definition replace_template_vars :: "string \<Rightarrow> string" where
  "replace_template_vars s =
     foldl (\<lambda>t (pattern, replacement). replace_all (literal_ci pattern) (\<lambda>_. replacement) t)
       s template_vars"

text \<open>
  Step 5. \<^verbatim>\<open>/>([^<>]+[a-zA-Z])<\/(?:p|div|span|td)/g\<close> matches at a \<^verbatim>\<open>>\<close> sign that is
  followed by a run of at least two characters other than \<^verbatim>\<open><\<close> and \<^verbatim>\<open>>\<close>, the last of
  them a letter, and then by \<^verbatim>\<open></\<close> and one of the tag names; the group is the run.
  \<open>sentence_token\<close> answers the length of the run and the tag name.
\<close>

definition is_letter :: "char \<Rightarrow> bool" where
  "is_letter c = (c \<in> set ''abcdefghijklmnopqrstuvwxyzABCDEFGHIJKLMNOPQRSTUVWXYZ'')"

definition sentence_token :: "string \<Rightarrow> (nat \<times> string) option" where
  "sentence_token s =
     (case s of
        [] \<Rightarrow> None
      | c # r \<Rightarrow>
          if c \<noteq> CHR ''>'' then None
          else
            (let run = takeWhile (\<lambda>x. x \<noteq> CHR ''<'' \<and> x \<noteq> CHR ''>'') r;
                 rest = dropWhile (\<lambda>x. x \<noteq> CHR ''<'' \<and> x \<noteq> CHR ''>'') r
             in if 2 \<le> length run \<and> is_letter (last run) \<and> starts_with rest ''</''
                then (case find (\<lambda>tag. starts_with (drop 2 rest) tag)
                             [''p'', ''div'', ''span'', ''td''] of
                        Some tag \<Rightarrow> Some (length run, tag)
                      | None \<Rightarrow> None)
                else None))"

text \<open>
  \<^verbatim>\<open>re.exec(text)\<close> for the global expression, whose \<^verbatim>\<open>lastIndex\<close> is kept between the
  calls: the search starts at \<^verbatim>\<open>lastIndex\<close> and fails when that is past the end. The
  answer is the position of the match, the length of the run and the tag name.
\<close>

fun exec_from :: "nat \<Rightarrow> string \<Rightarrow> (nat \<times> nat \<times> string) option" where
  "exec_from pos [] = None"
| "exec_from pos (c # cs) =
     (case sentence_token (c # cs) of
        Some (n, tag) \<Rightarrow> Some (pos, n, tag)
      | None \<Rightarrow> exec_from (pos + 1) cs)"

definition exec_sentence :: "nat \<Rightarrow> string \<Rightarrow> (nat \<times> nat \<times> string) option" where
  "exec_sentence lastIndex s =
     (if lastIndex > length s then None else exec_from lastIndex (drop lastIndex s))"

text \<open>
  \<^verbatim>\<open>text.replace(pattern, replacement)\<close> with two strings replaces the first occurrence
  of the pattern. In the replacement \<^verbatim>\<open>$$\<close> stands for a dollar sign, \<^verbatim>\<open>$&\<close> for the
  matched text, \<^verbatim>\<open>$`\<close> for the text before the match and \<^verbatim>\<open>$'\<close> for the text after it; a
  pattern string has no groups, so every other dollar sign stands for itself.
\<close>

fun get_substitution :: "string \<Rightarrow> string \<Rightarrow> string \<Rightarrow> string \<Rightarrow> string" where
  "get_substitution matched pre post [] = []"
| "get_substitution matched pre post [c] = [c]"
| "get_substitution matched pre post (c # d # r) =
     (if c = CHR ''$'' then
        (if d = CHR ''$'' then CHR ''$'' # get_substitution matched pre post r
         else if d = CHR ''&'' then matched @ get_substitution matched pre post r
         else if d = CHR 0x60 then pre @ get_substitution matched pre post r
         else if d = CHR 0x27 then post @ get_substitution matched pre post r
         else c # get_substitution matched pre post (d # r))
      else c # get_substitution matched pre post (d # r))"

fun replace_first_from :: "string \<Rightarrow> string \<Rightarrow> string \<Rightarrow> string \<Rightarrow> string" where
  "replace_first_from pre [] pattern replacement =
     (if pattern = [] then pre @ get_substitution pattern pre [] replacement else pre)"
| "replace_first_from pre (c # cs) pattern replacement =
     (if starts_with (c # cs) pattern
      then pre @ get_substitution pattern pre (drop (length pattern) (c # cs)) replacement
             @ drop (length pattern) (c # cs)
      else replace_first_from (pre @ [c]) cs pattern replacement)"

definition replace_first :: "string \<Rightarrow> string \<Rightarrow> string \<Rightarrow> string" where
  "replace_first s pattern replacement = replace_first_from [] s pattern replacement"

text \<open>
  The \<^verbatim>\<open>while\<close> loop of step 5: \<open>lastIndex\<close> is the expression's state, \<open>polished\<close> the
  text, which the body replaces while the expression keeps its index. The loop has no
  bound in the source; \<open>None\<close> is a run that never leaves it.
\<close>

definition ends_with_punctuation :: "string \<Rightarrow> bool" where
  "ends_with_punctuation t = (t \<noteq> [] \<and> last t \<in> set ''.!?:,'')"

partial_function (option) fix_sentences :: "nat \<Rightarrow> string \<Rightarrow> nat \<Rightarrow> (string \<times> nat) option" where
  "fix_sentences lastIndex polished brokenCount =
     (case exec_sentence lastIndex polished of
        None \<Rightarrow> Some (polished, brokenCount)
      | Some (start, n, tag) \<Rightarrow>
          (let text = take n (drop (start + 1) polished);
               match0 = CHR ''>'' # text @ ''</'' @ tag
           in if length text > 20 \<and> \<not> ends_with_punctuation text
              then fix_sentences (start + length match0)
                     (replace_first polished match0 (CHR ''>'' # text @ ''.</'' @ tag))
                     (brokenCount + 1)
              else fix_sentences (start + length match0) polished brokenCount))"

declare fix_sentences.simps [code]

text \<open>
  \<^verbatim>\<open>manualPolishHTML(html)\<close>: the six numbered steps of the source, each giving the
  text it leaves and its entry of the change log (none when it found nothing), and the
  synthetic entry when no step applied.
\<close>

definition quoted :: "string \<Rightarrow> string" where
  "quoted s = CHR 0x22 # s @ [CHR 0x22]"

definition step_entry :: "string \<Rightarrow> nat \<Rightarrow> string \<Rightarrow> change list" where
  "step_entry t n r = (if n > 0 then [\<lparr> ctype = Some t, ccount = Some n, reason = r \<rparr>] else [])"

definition step1 :: "string \<Rightarrow> string \<times> change list" where
  "step1 polished =
     (let insufficient = count_matches insufficient_token polished in
      (if insufficient > 0
       then replace_all insufficient_token (\<lambda>_. ''Data not available'') polished
       else polished,
       step_entry ''fix_insufficient_evidence'' insufficient
         (''Replaced '' @ show_nat insufficient @ '' insufficient evidence markers with ''
            @ quoted ''Data not available'')))"

definition step2 :: "string \<Rightarrow> string \<times> change list" where
  "step2 polished =
     (let markdown = count_matches (fence_token [''json'', ''html'', ''text'']) polished in
      (if markdown > 0
       then replace_all (fence_token [''json'', ''html'', ''text'']) (\<lambda>_. []) polished
       else polished,
       step_entry ''remove_markdown'' markdown
         (''Removed '' @ show_nat markdown @ '' markdown code block markers'')))"

definition step3 :: "string \<Rightarrow> string \<times> change list" where
  "step3 polished =
     (let placeholders = count_matches marker_token polished in
      (if placeholders > 0
       then replace_all marker_token (\<lambda>m. default_text (placeholder_field m)) polished
       else polished,
       step_entry ''fix_placeholders'' placeholders
         (''Replaced '' @ show_nat placeholders @ '' unfilled placeholders with default text'')))"

definition step4 :: "string \<Rightarrow> string \<times> change list" where
  "step4 polished =
     (let templateVars = count_matches template_var_token polished in
      (if templateVars > 0 then replace_template_vars polished else polished,
       step_entry ''fix_template_vars'' templateVars
         (''Replaced '' @ show_nat templateVars @ '' template variables with readable text'')))"

definition step5 :: "string \<Rightarrow> (string \<times> change list) option" where
  "step5 polished =
     (case fix_sentences 0 polished 0 of
        None \<Rightarrow> None
      | Some (fixed, brokenCount) \<Rightarrow>
          Some (fixed,
                step_entry ''fix_punctuation'' brokenCount
                  (''Added missing punctuation to '' @ show_nat brokenCount @ '' sentences'')))"

definition step6 :: "string \<Rightarrow> string \<times> change list" where
  "step6 polished =
     (let doubleSpaces = count_matches spaces_token polished in
      if doubleSpaces > 10
      then (replace_all spaces_token (\<lambda>_. '' '') polished,
            [\<lparr> ctype = Some ''fix_whitespace'', ccount = Some doubleSpaces,
                reason = ''Normalized whitespace'' \<rparr>])
      else (polished, []))"

definition no_changes :: change where
  "no_changes =
     \<lparr> ctype = Some ''no_changes'', ccount = None,
       reason = ''HTML already clean, no manual fixes needed'' \<rparr>"

definition manualPolishHTML :: "string \<Rightarrow> (string \<times> change list) option" where
  "manualPolishHTML html =
     (let (p1, c1) = step1 html;
          (p2, c2) = step2 p1;
          (p3, c3) = step3 p2;
          (p4, c4) = step4 p3
      in case step5 p4 of
           None \<Rightarrow> None
         | Some (p5, c5) \<Rightarrow>
             (let (p6, c6) = step6 p5;
                  changes = c1 @ c2 @ c3 @ c4 @ c5 @ c6
              in Some (p6, if changes = [] then [no_changes] else changes)))"

section \<open>The polish pass with its generation call\<close>

text \<open>
  \<^verbatim>\<open>summarizeHTMLChanges(original, polished)\<close>. The percentage in the reason of the
  \<^verbatim>\<open>text_rewrite\<close> entry is \<^verbatim>\<open>toFixed(1)\<close> of a floating point quotient; its text is a
  parameter, given the difference and the original length.
\<close>

definition strip_tags :: "string \<Rightarrow> string" where
  "strip_tags s = replace_all (span_token ''<'' CHR ''>'' 0) (\<lambda>_. []) s"

definition summarizeHTMLChanges :: "(nat \<Rightarrow> nat \<Rightarrow> string) \<Rightarrow> string \<Rightarrow> string \<Rightarrow> change list" where
  "summarizeHTMLChanges percent original polished =
     (let insufficientBefore = count_matches (literal ''[INSUFFICIENT_EVIDENCE]'') original;
          insufficientAfter = count_matches (literal ''[INSUFFICIENT_EVIDENCE]'') polished;
          c1 = (if insufficientBefore > insufficientAfter
                then [\<lparr> ctype = Some ''fix_insufficient_evidence'',
                        ccount = Some (insufficientBefore - insufficientAfter),
                        reason = ''Fixed '' @ show_nat (insufficientBefore - insufficientAfter)
                                   @ '' insufficient evidence markers'' \<rparr>]
                else []);
          markdownBefore = count_matches (literal ''```'') original;
          markdownAfter = count_matches (literal ''```'') polished;
          c2 = (if markdownBefore > markdownAfter
                then [\<lparr> ctype = Some ''remove_markdown'',
                        ccount = Some (markdownBefore - markdownAfter),
                        reason = ''Removed '' @ show_nat (markdownBefore - markdownAfter)
                                   @ '' markdown code block markers'' \<rparr>]
                else []);
          originalTextLength = length (strip_tags original);
          polishedTextLength = length (strip_tags polished);
          lengthDiff = (if polishedTextLength \<ge> originalTextLength
                        then polishedTextLength - originalTextLength
                        else originalTextLength - polishedTextLength);
          c3 = (if lengthDiff > 50
                then [\<lparr> ctype = Some ''text_rewrite'', ccount = None,
                        reason = ''Text content changed by '' @ percent lengthDiff originalTextLength
                                   @ ''% ('' @ show_nat lengthDiff @ '' characters)'' \<rparr>]
                else []);
          changes = c1 @ c2 @ c3
      in if changes = []
         then [\<lparr> ctype = Some ''minor_polish'', ccount = None,
                 reason = ''Minor text improvements applied'' \<rparr>]
         else changes)"

text \<open>
  \<^verbatim>\<open>polishHTML(html)\<close>. \<open>prompt_found\<close> says whether the registry has the prompt
  \<^verbatim>\<open>html_polish_v1\<close>; \<open>generated\<close> is the outcome of \<^verbatim>\<open>await this.callLLM(prompt, context)\<close>:
  the text of the response, or the error it throws (the \<^verbatim>\<open>callLLM\<close> of this file wraps
  the retry loop above in a second provider whose adapter is not among the sources).
\<close>

definition polishHTML ::
  "bool \<Rightarrow> bool \<Rightarrow> (llm_error + string) \<Rightarrow> (nat \<Rightarrow> nat \<Rightarrow> string) \<Rightarrow> string
     \<Rightarrow> (string \<times> change list) option"
where
  "polishHTML dry prompt_found generated percent html =
     (if dry then
        Some (html, [\<lparr> ctype = None, ccount = None, reason = ''Dry run - no changes made'' \<rparr>])
      else if \<not> prompt_found then manualPolishHTML html
      else
        (case generated of
           Inl err \<Rightarrow> manualPolishHTML html
         | Inr content \<Rightarrow>
             (let polishedHtml = stripMarkdown content in
              if \<not> js_includes polishedHtml ''<!DOCTYPE html>''
                 \<or> \<not> js_includes polishedHtml ''</html>''
              then manualPolishHTML html
              else Some (polishedHtml, summarizeHTMLChanges percent html polishedHtml))))"

text \<open>
  The text contains the well-formed marker pattern when the counting expression of
  step 3 has a match in it.
\<close>

fun occurs :: "(string \<Rightarrow> nat option) \<Rightarrow> string \<Rightarrow> bool" where
  "occurs m [] = (m [] \<noteq> None)"
| "occurs m (c # cs) = (m (c # cs) \<noteq> None \<or> occurs m cs)"

definition deterministic_path :: "bool \<Rightarrow> bool \<Rightarrow> (llm_error + string) \<Rightarrow> bool" where
  "deterministic_path dry prompt_found generated =
     (\<not> dry \<and>
      (\<not> prompt_found \<or>
       (case generated of
          Inl err \<Rightarrow> True
        | Inr content \<Rightarrow>
            \<not> js_includes (stripMarkdown content) ''<!DOCTYPE html>''
            \<or> \<not> js_includes (stripMarkdown content) ''</html>'')))"

text \<open>
  A stand-in for the percentage text where no entry needs it.
\<close>

definition no_percent :: "nat \<Rightarrow> nat \<Rightarrow> string" where
  "no_percent lengthDiff originalTextLength = []"

text \<open>
  A replacement text is inert for a token \<^verbatim>\<open>[\<close>\<open>ptail\<close>... when it is not empty, has no
  bracket and cannot supply the beginning of a stretch of text that completes \<open>ptail\<close>.
  \<open>inert_check\<close> decides a sufficient condition by computation.
\<close>

definition inert :: "string \<Rightarrow> string \<Rightarrow> bool" where
  "inert ptail t =
     (t \<noteq> [] \<and> CHR ''['' \<notin> set t \<and> CHR '']'' \<notin> set t
      \<and> (\<forall>q r. q \<noteq> [] \<and> suffix q ptail \<longrightarrow> \<not> starts_with (t @ r) q))"

definition inert_check :: "string \<Rightarrow> string \<Rightarrow> bool" where
  "inert_check ptail t =
     (t \<noteq> [] \<and> CHR ''['' \<notin> set t \<and> CHR '']'' \<notin> set t
      \<and> (hd t \<notin> set ptail
          \<or> (length ptail \<le> length t
              \<and> list_all (\<lambda>q. q = [] \<or> \<not> starts_with t q) (suffixes ptail))))"

section \<open>Properties of texts\<close>

text \<open>
  In a replacement string \<^verbatim>\<open>String.prototype.replace\<close> reads a dollar sign together with
  the character after it when that is a dollar sign, an ampersand, a backquote or an
  apostrophe. \<open>plain_dollars s\<close>: no dollar sign of \<open>s\<close> is directly followed by one of
  the four, so that \<open>s\<close> stands for itself as a replacement (\<^verbatim>\<open>$4,200\<close> does).
\<close>

definition special :: "char \<Rightarrow> bool" where
  "special c = (c \<in> set [CHR ''$'', CHR ''&'', CHR 0x60, CHR 0x27])"

fun plain_dollars :: "string \<Rightarrow> bool" where
  "plain_dollars (a # b # r) = (\<not> (a = CHR ''$'' \<and> special b) \<and> plain_dollars (b # r))"
| "plain_dollars [a] = True"
| "plain_dollars [] = True"

text \<open>
  \<open>dotted s s'\<close>: \<open>s'\<close> is \<open>s\<close> with full stops put in behind letters, which is all that
  step 5 does to a text with plain dollar signs.
\<close>

inductive dotted :: "string \<Rightarrow> string \<Rightarrow> bool" where
  same: "dotted s s"
| dot: "dotted s (X @ Y) \<Longrightarrow> X \<noteq> [] \<Longrightarrow> is_letter (last X) \<Longrightarrow> dotted s (X @ CHR ''.'' # Y)"




definition after_step4 :: "string \<Rightarrow> string" where
  "after_step4 html = fst (step4 (fst (step3 (fst (step2 (fst (step1 html)))))))"

section \<open>The batch executor\<close>

text \<open>
  \<^verbatim>\<open>parseJSON(text)\<close> of \<^verbatim>\<open>llm_batch_executor.js\<close>. The fences are removed as in
  \<^verbatim>\<open>stripMarkdown\<close>, with \<^verbatim>\<open>json\<close> as the one language name. \<^verbatim>\<open>/\{[\s\S]*\}/\<close> matches from
  the first opening brace to the last closing brace, when one follows. \<^verbatim>\<open>JSON.parse\<close> is
  a parameter: \<open>None\<close> where it throws its \<^verbatim>\<open>SyntaxError\<close>.
\<close>

datatype parse_error = SyntaxError | CouldNotParse

definition object_match :: "string \<Rightarrow> string option" where
  "object_match cleaned =
     (let rest = dropWhile (\<lambda>c. c \<noteq> CHR ''{'') cleaned in
      if CHR ''}'' \<in> set rest
      then Some (rev (dropWhile (\<lambda>c. c \<noteq> CHR ''}'') (rev rest)))
      else None)"

definition parseJSON :: "(string \<Rightarrow> 'g option) \<Rightarrow> string \<Rightarrow> parse_error + 'g" where
  "parseJSON json_parse text =
     (let cleaned = js_trim
                      (replace_all_ctx fence_close (\<lambda>_. []) None
                         (replace_all_ctx (fence_open [''json'']) (\<lambda>_. []) None text))
      in case object_match cleaned of
           Some m \<Rightarrow> (case json_parse m of Some v \<Rightarrow> Inr v | None \<Rightarrow> Inl SyntaxError)
         | None \<Rightarrow> Inl CouldNotParse)"

text \<open>
  \<^verbatim>\<open>fillAllNarratives(reportJson)\<close>. \<open>llm k\<close> is the outcome of the \<open>k\<close>-th
  \<^verbatim>\<open>await this.callLLM(...)\<close> of the run: the text of the response, or the error it throws.
  \<open>applyGeneratedContent\<close> is a parameter; it works on a copy of the document and may
  throw. The answer is what the operation returns or throws, together with the number of
  generation calls it has made.
\<close>

datatype 'e batch_error =
    CallFailed llm_error
  | InvalidJSON
  | ApplyFailed 'e

definition fillAllNarratives ::
  "(string \<Rightarrow> 'g option) \<Rightarrow> (nat \<Rightarrow> llm_error + string) \<Rightarrow> bool
     \<Rightarrow> ('d \<Rightarrow> 'g \<Rightarrow> 'e + 'd) \<Rightarrow> 'd \<Rightarrow> ('e batch_error + 'd) \<times> nat"
where
  "fillAllNarratives json_parse llm skipRefinement applyGeneratedContent reportJson =
     (case llm 0 of
        Inl err \<Rightarrow> (Inl (CallFailed err), 1)
      | Inr content \<Rightarrow>
          (case parseJSON json_parse content of
             Inl err \<Rightarrow> (Inl InvalidJSON, 1)
           | Inr generatedContent \<Rightarrow>
               if skipRefinement then
                 (case applyGeneratedContent reportJson generatedContent of
                    Inl e \<Rightarrow> (Inl (ApplyFailed e), 1)
                  | Inr filledReport \<Rightarrow> (Inr filledReport, 1))
               else
                 (case llm 1 of
                    Inl err \<Rightarrow> (Inl (CallFailed err), 2)
                  | Inr refined \<Rightarrow>
                      (let content2 = (case parseJSON json_parse refined of
                                         Inl err \<Rightarrow> generatedContent
                                       | Inr g \<Rightarrow> g)
                       in case applyGeneratedContent reportJson content2 of
                            Inl e \<Rightarrow> (Inl (ApplyFailed e), 2)
                          | Inr filledReport \<Rightarrow> (Inr filledReport, 2)))))"

text \<open>
  Sample parameters: a response in prose; a \<^verbatim>\<open>JSON.parse\<close> that knows the empty object
  only; a run whose first response is the empty object in a fence and whose refinement
  response is cut short; and \<^verbatim>\<open>applyGeneratedContent\<close> on an object without fields,
  where every guard of the source fails and the copy is returned as it is.
\<close>

definition prose_reply :: "nat \<Rightarrow> llm_error + string" where
  "prose_reply k = Inr ''I could not produce the narratives.''"

definition parse_empty_object :: "string \<Rightarrow> json option" where
  "parse_empty_object m = (if m = ''{}'' then Some (JObj []) else None)"

definition cut_refinement :: "nat \<Rightarrow> llm_error + string" where
  "cut_refinement k =
     (if k = 0 then Inr (''```json'' @ CHR 0x0A # ''{}'' @ CHR 0x0A # ''```'')
      else Inr ''{ document_title: '')"

definition apply_empty :: "json \<Rightarrow> json \<Rightarrow> js_fault + json" where
  "apply_empty reportJson generated =
     (if generated = JObj [] then Inr reportJson else Inl Unmodelled)"

definition sample_report :: json where
  "sample_report =
     JObj [(''document'', JObj [(''title'', JStr ''[LLM_PLACEHOLDER: document_title]'')])]"

section \<open>Facts about \<open>indexOf\<close>\<close>

lemma indexOf_from_absent: "x \<notin> set xs \<Longrightarrow> indexOf_from xs x i = -1"
  by (induction xs arbitrary: i) auto

lemma indexOf_from_present:
  "x \<in> set xs \<Longrightarrow> i \<le> indexOf_from xs x i \<and> indexOf_from xs x i < i + int (length xs)"
proof (induction xs arbitrary: i)
  case Nil
  then show ?case by simp
next
  case (Cons y ys)
  show ?case
  proof (cases "y = x")
    case True
    then show ?thesis by simp
  next
    case False
    with Cons.prems have "x \<in> set ys" by simp
    from Cons.IH [OF this, of "i + 1"] False show ?thesis by simp
  qed
qed

lemma indexOf_from_nth:
  "x \<in> set xs \<Longrightarrow> xs ! nat (indexOf_from xs x i - i) = x"
proof (induction xs arbitrary: i)
  case Nil
  then show ?case by simp
next
  case (Cons y ys)
  show ?case
  proof (cases "y = x")
    case True
    then show ?thesis by simp
  next
    case False
    with Cons.prems have mem: "x \<in> set ys" by simp
    from indexOf_from_present [OF mem, of "i + 1"]
    have "i + 1 \<le> indexOf_from ys x (i + 1)" by simp
    then have "nat (indexOf_from ys x (i + 1) - i) = Suc (nat (indexOf_from ys x (i + 1) - (i + 1)))"
      by simp
    with Cons.IH [OF mem, of "i + 1"] False show ?thesis by simp
  qed
qed

lemma indexOf_from_distinct:
  "distinct xs \<Longrightarrow> k < length xs \<Longrightarrow> indexOf_from xs (xs ! k) i = i + int k"
proof (induction xs arbitrary: i k)
  case Nil
  then show ?case by simp
next
  case (Cons y ys)
  show ?case
  proof (cases k)
    case 0
    then show ?thesis by simp
  next
    case (Suc j)
    with Cons.prems have j: "j < length ys" and d: "distinct ys" and "y \<notin> set ys" by auto
    then have "ys ! j \<noteq> y" by (metis nth_mem)
    with Cons.IH [OF d j, of "i + 1"] Suc show ?thesis by simp
  qed
qed

lemma indexOf_distinct: "distinct xs \<Longrightarrow> k < length xs \<Longrightarrow> indexOf xs (xs ! k) = int k"
  by (simp add: indexOf_def indexOf_from_distinct)

lemma indexOf_absent: "x \<notin> set xs \<Longrightarrow> indexOf xs x = -1"
  by (simp add: indexOf_def indexOf_from_absent)

lemma indexOf_present: "x \<in> set xs \<Longrightarrow> 0 \<le> indexOf xs x \<and> indexOf xs x < int (length xs)"
  using indexOf_from_present [of x xs 0] by (simp add: indexOf_def)

lemma indexOf_nth: "x \<in> set xs \<Longrightarrow> xs ! nat (indexOf xs x) = x"
  using indexOf_from_nth [of x xs 0] by (simp add: indexOf_def)

lemma next_in_order_unknown: "m \<notin> set order \<Longrightarrow> next_in_order order m = None"
  by (simp add: next_in_order_def indexOf_absent)

lemma next_in_order_at:
  assumes "distinct order" and "Suc k < length order"
  shows "next_in_order order (order ! k) = Some (order ! Suc k)"
proof -
  from assms have "indexOf order (order ! k) = int k"
    by (simp add: indexOf_distinct)
  with assms(2) show ?thesis
    by (simp add: next_in_order_def nat_add_distrib)
qed


lemma distinct_PUTER: "distinct PUTER_FALLBACK_ORDER"
  by (simp add: PUTER_FALLBACK_ORDER_def)

lemma puter_next_values:
  "puter_getNextFallbackModel ''gpt-4o-mini'' = Some ''claude-3-haiku''"
  "puter_getNextFallbackModel ''claude-3-haiku'' = Some ''gemini-2.0-flash''"
  "puter_getNextFallbackModel ''gemini-2.0-flash'' = Some ''llama-3.1-70b''"
  "puter_getNextFallbackModel ''llama-3.1-70b'' = None"
  by code_simp+

lemma puter_last: "last PUTER_FALLBACK_ORDER = ''llama-3.1-70b''"
  by code_simp

lemma puter_members:
  "m \<in> set PUTER_FALLBACK_ORDER \<Longrightarrow>
     m = ''gpt-4o-mini'' \<or> m = ''claude-3-haiku'' \<or> m = ''gemini-2.0-flash''
       \<or> m = ''llama-3.1-70b''"
  unfolding PUTER_FALLBACK_ORDER_def by (simp only: set_simps insert_iff empty_iff simp_thms)

lemma puter_not_last:
  "''gpt-4o-mini'' \<noteq> ''llama-3.1-70b''"
  "''claude-3-haiku'' \<noteq> ''llama-3.1-70b''"
  "''gemini-2.0-flash'' \<noteq> ''llama-3.1-70b''"
  by code_simp+

section \<open>Facts about the retry loop\<close>

lemma next_in_order_rank:
  assumes "distinct order" and "next_in_order order m = Some m'"
  shows "indexOf order m' = indexOf order m + 1 \<and> m \<in> set order \<and> m' \<in> set order"
proof -
  have mem: "m \<in> set order"
  proof (rule ccontr)
    assume "m \<notin> set order"
    then have "next_in_order order m = None" by (rule next_in_order_unknown)
    with assms(2) show False by simp
  qed
  let ?i = "indexOf order m"
  from indexOf_present [OF mem] have i0: "0 \<le> ?i" by simp
  from assms(2) have lt: "?i < int (length order) - 1" and m': "m' = order ! nat (?i + 1)"
    by (auto simp: next_in_order_def Let_def split: if_splits)
  from i0 lt have k: "nat (?i + 1) < length order" by simp
  from indexOf_distinct [OF assms(1) k] m' i0 have "indexOf order m' = ?i + 1" by simp
  moreover from k m' have "m' \<in> set order" by simp
  ultimately show ?thesis using mem by simp
qed

lemma fallback_False: "fst (fallbackToNextModel cfg ex) = False \<Longrightarrow> snd (fallbackToNextModel cfg ex) = ex"
  by (auto simp: fallbackToNextModel_def split: option.splits if_splits)



lemma successively_snoc:
  "successively P (xs @ [x]) \<Longrightarrow> P x y \<Longrightarrow> successively P ((xs @ [x]) @ [y])"
  by (simp add: successively_append_iff)

lemma trace_ok_fetch:
  "trace_ok cfg ex \<Longrightarrow> trace_ok cfg (ex\<lparr> fetched := fetched ex @ [currentModel ex] \<rparr>)"
  unfolding trace_ok_def by (simp add: successively_append_iff step_def)

lemma trace_ok_sleep: "trace_ok cfg (sleep ms ex) = trace_ok cfg ex"
  by (simp add: trace_ok_def sleep_def)

lemma trace_ok_fallback:
  "trace_ok cfg ex \<Longrightarrow> fetched ex \<noteq> [] \<Longrightarrow> last (fetched ex) = currentModel ex \<Longrightarrow>
     trace_ok cfg (snd (fallbackToNextModel cfg ex))"
  unfolding trace_ok_def fallbackToNextModel_def
  by (auto simp: successively_append_iff step_def split: option.splits)

lemma loop_trace_ok:
  "trace_ok cfg ex \<Longrightarrow> trace_ok cfg (snd (callLLM_loop cfg fetch attempt fa ex))"
proof (induction cfg fetch attempt fa ex rule: callLLM_loop.induct)
  case (1 cfg fetch attempt fa ex)
  let ?ex1 = "ex\<lparr> fetched := fetched ex @ [currentModel ex] \<rparr>"
  from "1.prems" have ok1: "trace_ok cfg ?ex1" by (rule trace_ok_fetch)
  have ok2: "trace_ok cfg (snd (fallbackToNextModel cfg ?ex1))"
    by (rule trace_ok_fallback [OF ok1]) simp_all
  show ?case
  proof (cases "fetch (length (fetched ex)) (currentModel ex)")
    case (Responded content tokens)
    with ok1 show ?thesis
      by (subst callLLM_loop.simps) (simp add: Let_def trace_ok_def)
  next
    case (Threw err)
    note IH = "1.IH" [OF refl Threw]
    show ?thesis
      using Threw ok1 ok2 IH
      by (subst callLLM_loop.simps) (simp add: Let_def trace_ok_sleep)
  qed
qed


lemma callLLM_trace_ok: "trace_ok cfg ex \<Longrightarrow> trace_ok cfg (snd (callLLM cfg fetch p ex))"
  using loop_trace_ok [of cfg ex fetch 0 False]
  by (auto simp: callLLM_def trace_ok_def split: prod.splits sum.splits)

lemma run_calls_trace_ok: "trace_ok cfg ex \<Longrightarrow> trace_ok cfg (run_calls cfg fetch ps ex)"
  by (induction ps arbitrary: ex) (simp_all add: callLLM_trace_ok)

lemma new_executor_trace_ok: "trace_ok cfg (new_executor m)"
  by (simp add: trace_ok_def new_executor_def)

lemma step_moved:
  assumes "distinct (MODEL_FALLBACK_ORDER cfg)" and "step cfg m m'"
  shows "moved cfg m m'"
  using assms next_in_order_rank [of "MODEL_FALLBACK_ORDER cfg" m m']
  by (auto simp: step_def moved_def rank_def getNextFallbackModel_def)

lemma transp_moved: "transp (moved cfg)"
  by (auto simp: transp_def moved_def)

lemma trace_sorted:
  assumes "distinct (MODEL_FALLBACK_ORDER cfg)" and "trace_ok cfg ex"
  shows "sorted_wrt (moved cfg) (fetched ex @ [currentModel ex])"
proof -
  from assms(2) have "successively (step cfg) (fetched ex @ [currentModel ex])"
    by (simp add: trace_ok_def)
  then have "successively (moved cfg) (fetched ex @ [currentModel ex])"
    by (rule successively_mono) (simp_all add: step_moved [OF assms(1)])
  then show ?thesis
    by (simp only: successively_conv_sorted_wrt [OF transp_moved])
qed

lemma fallback_moved:
  "distinct (MODEL_FALLBACK_ORDER cfg) \<Longrightarrow>
     moved cfg (currentModel ex) (currentModel (snd (fallbackToNextModel cfg ex)))"
  by (rule step_moved) (auto simp: step_def fallbackToNextModel_def split: option.splits)

lemma loop_pointer_moved:
  "distinct (MODEL_FALLBACK_ORDER cfg) \<Longrightarrow>
     moved cfg (currentModel ex) (currentModel (snd (callLLM_loop cfg fetch attempt fa ex)))"
proof (induction cfg fetch attempt fa ex rule: callLLM_loop.induct)
  case (1 cfg fetch attempt fa ex)
  let ?ex1 = "ex\<lparr> fetched := fetched ex @ [currentModel ex] \<rparr>"
  note d = "1.prems"
  have fb: "moved cfg (currentModel ex) (currentModel (snd (fallbackToNextModel cfg ?ex1)))"
    using fallback_moved [OF d, of ?ex1] by simp
  show ?case
  proof (cases "fetch (length (fetched ex)) (currentModel ex)")
    case (Responded content tokens)
    then show ?thesis
      by (subst callLLM_loop.simps) (simp add: Let_def moved_def)
  next
    case (Threw err)
    note IH = "1.IH" [OF refl Threw]
    have t: "\<And>x y z. moved cfg x y \<Longrightarrow> moved cfg y z \<Longrightarrow> moved cfg x z"
      using transp_moved [of cfg] by (auto simp: transp_def)
    show ?thesis
    proof (cases "is_rate_limit err \<and> \<not> fa")
      case True
      show ?thesis
      proof (cases "fst (fallbackToNextModel cfg ?ex1)")
        case fbT: True
        from IH(1) [OF True fbT d] fb have
          "moved cfg (currentModel ex)
             (currentModel (snd (callLLM_loop cfg fetch 0 True (snd (fallbackToNextModel cfg ?ex1)))))"
          by (rule t [rotated])
        with Threw True fbT show ?thesis
          by (subst callLLM_loop.simps) (simp add: Let_def)
      next
        case fbF: False
        show ?thesis
        proof (cases "attempt + 1 \<le> maxRetries cfg")
          case le: True
          from IH(2) [OF True fbF refl le d] fb have
            "moved cfg (currentModel ex)
               (currentModel (snd (callLLM_loop cfg fetch (attempt + 1) fa
                  (sleep (retry_after err) (snd (fallbackToNextModel cfg ?ex1))))))"
            by (auto simp: sleep_def intro: t)
          with Threw True fbF le show ?thesis
            by (subst callLLM_loop.simps) (simp add: Let_def)
        next
          case False
          with Threw True fbF fb show ?thesis
            by (subst callLLM_loop.simps) (simp add: Let_def sleep_def)
        qed
      qed
    next
      case False
      show ?thesis
      proof (cases "isRetryable err \<and> attempt < maxRetries cfg")
        case True
        from IH(3) [OF False True d] have
          "moved cfg (currentModel ex)
             (currentModel (snd (callLLM_loop cfg fetch (attempt + 1) fa
                (sleep (5000 * (attempt + 1)) ?ex1))))"
          by (simp add: sleep_def)
        with Threw False True show ?thesis
          by (subst callLLM_loop.simps) (auto simp add: Let_def)
      next
        case F2: False
        with Threw False show ?thesis
          by (subst callLLM_loop.simps) (auto simp add: Let_def moved_def)
      qed
    qed
  qed
qed

lemma callLLM_pointer_moved:
  "distinct (MODEL_FALLBACK_ORDER cfg) \<Longrightarrow>
     moved cfg (currentModel ex) (currentModel (snd (callLLM cfg fetch p ex)))"
  using loop_pointer_moved [of cfg ex fetch 0 False]
  by (auto simp: callLLM_def moved_def split: prod.splits sum.splits)


lemma sorted_wrt_nth: "sorted_wrt P xs \<Longrightarrow> i < j \<Longrightarrow> j < length xs \<Longrightarrow> P (xs ! i) (xs ! j)"
  by (simp add: sorted_wrt_iff_nth_less)




lemma loop_fallback:
  "fetch (length (fetched ex)) (currentModel ex) = Threw err \<Longrightarrow> is_rate_limit err \<Longrightarrow>
   fst (fallbackToNextModel cfg (ex\<lparr> fetched := fetched ex @ [currentModel ex] \<rparr>)) \<Longrightarrow>
   callLLM_loop cfg fetch attempt False ex =
     callLLM_loop cfg fetch 0 True
       (snd (fallbackToNextModel cfg (ex\<lparr> fetched := fetched ex @ [currentModel ex] \<rparr>)))"
  by (subst callLLM_loop.simps) (simp add: Let_def)

lemma loop_wait:
  "fetch (length (fetched ex)) (currentModel ex) = Threw err \<Longrightarrow> is_rate_limit err \<Longrightarrow>
   \<not> fst (fallbackToNextModel cfg (ex\<lparr> fetched := fetched ex @ [currentModel ex] \<rparr>)) \<Longrightarrow>
   callLLM_loop cfg fetch attempt False ex =
     (if attempt + 1 \<le> maxRetries cfg
      then callLLM_loop cfg fetch (attempt + 1) False
             (sleep (retry_after err) (ex\<lparr> fetched := fetched ex @ [currentModel ex] \<rparr>))
      else (Inl err, sleep (retry_after err) (ex\<lparr> fetched := fetched ex @ [currentModel ex] \<rparr>)))"
  by (subst callLLM_loop.simps) (simp add: Let_def fallback_False)

lemma loop_other:
  "fetch (length (fetched ex)) (currentModel ex) = Threw err \<Longrightarrow> \<not> is_rate_limit err \<or> fa \<Longrightarrow>
   callLLM_loop cfg fetch attempt fa ex =
     (if isRetryable err \<and> attempt < maxRetries cfg
      then callLLM_loop cfg fetch (attempt + 1) fa
             (sleep (5000 * (attempt + 1)) (ex\<lparr> fetched := fetched ex @ [currentModel ex] \<rparr>))
      else (Inl err, ex\<lparr> fetched := fetched ex @ [currentModel ex] \<rparr>))"
  by (subst callLLM_loop.simps) (auto simp add: Let_def)




lemma always_threw:
  "always_rate_limited fetch r \<Longrightarrow> \<exists>e. fst (callLLM_loop cfg fetch attempt fa ex) = Inl e"
proof (induction cfg fetch attempt fa ex rule: callLLM_loop.induct)
  case (1 cfg fetch attempt fa ex)
  let ?ex1 = "ex\<lparr> fetched := fetched ex @ [currentModel ex] \<rparr>"
  from "1.prems" obtain err where
    Threw: "fetch (length (fetched ex)) (currentModel ex) = Threw err" and rl: "is_rate_limit err"
    unfolding always_rate_limited_def by blast
  show ?case
  proof (cases fa)
    case True
    then have c: "\<not> is_rate_limit err \<or> True" and faT: "fa = True" by simp_all
    from "1.IH"(3) [OF refl Threw _ _ "1.prems"] True show ?thesis
      unfolding faT
      by (auto simp add: loop_other [where fetch=fetch and ex=ex, OF Threw c])
  next
    case False
    show ?thesis
    proof (cases "fst (fallbackToNextModel cfg ?ex1)")
      case fbT: True
      from False have faF: "fa = False" by simp
      from "1.IH"(1) [OF refl Threw _ fbT "1.prems"] rl False show ?thesis
        unfolding faF
        by (simp add: loop_fallback [where fetch=fetch and ex=ex, OF Threw rl fbT])
    next
      case fbF: False
      from False have faF: "fa = False" by simp
      from "1.IH"(2) [OF refl Threw _ fbF refl _ "1.prems"] rl False fallback_False [of cfg ?ex1] fbF
      show ?thesis
        unfolding faF
        by (auto simp add: loop_wait [where fetch=fetch and ex=ex, OF Threw rl fbF])
    qed
  qed
qed


lemma callLLM_live:
  "\<not> dryRun cfg \<Longrightarrow> apiKey_set cfg \<Longrightarrow>
   callLLM cfg fetch p ex =
     (case callLLM_loop cfg fetch 0 False ex of
        (Inr r, ex') \<Rightarrow> (Inr r, ex')
      | (Inl lastError, ex') \<Rightarrow>
          (Inl lastError,
           ex'\<lparr> stats_errors := stats_errors ex' @ [(p, currentModel ex', message lastError)] \<rparr>))"
  by (simp add: callLLM_def)


lemma callLLM_throws:
  "always_rate_limited fetch r \<Longrightarrow> \<not> dryRun cfg \<Longrightarrow> apiKey_set cfg \<Longrightarrow>
   \<exists>e. fst (callLLM cfg fetch p ex) = Inl e"
  using always_threw [of fetch r cfg 0 False ex]
  by (auto simp: callLLM_live split: prod.splits sum.splits)





lemma not_retryable_429: "\<not> isRetryable rate_limit_429"
  by (simp add: isRetryable_def rate_limit_429_def)

lemma rate_limit_429_fields:
  "is_rate_limit rate_limit_429" "retry_after rate_limit_429 = 60000"
  "message rate_limit_429 = ''Gemini API error 429: quota exceeded''"
  by (simp_all add: rate_limit_429_def)

lemma flaky_trace:
  "fetched (run_calls three_models flaky [''p1'', ''p2'', ''p3''] (new_executor ''gemini-2.5-flash''))
     = [''gemini-2.5-flash'', ''gemini-2.5-flash-lite'', ''gemini-2.5-flash-lite'',
        ''gemma-3-27b'', ''gemma-3-27b'']"
  by (simp add: callLLM_def callLLM_loop.simps three_models_def flaky_def new_executor_def
      not_retryable_429 fallbackToNextModel_def getNextFallbackModel_def next_in_order_def
      indexOf_def Let_def rate_limit_429_fields sleep_def)






section \<open>Facts about the path accessors\<close>


lemma map_of_alist_update: "map_of (alist_update k v kvs) k = Some v"
  by (induction kvs) auto

lemma map_of_alist_update_other: "k' \<noteq> k \<Longrightarrow> map_of (alist_update k v kvs) k' = map_of kvs k'"
  by (induction kvs) auto

lemma set_prop_then_get:
  assumes "set_prop c k v = Inr c'" and "k \<noteq> ''length''" and "k \<noteq> ''__proto__''"
  shows "get_prop c' k = Inr v \<and> c' \<noteq> JUndefined \<and> c' \<noteq> JNull"
proof (cases c)
  case (JObj kvs)
  with assms show ?thesis
    by (auto simp: map_of_alist_update split: if_splits)
next
  case (JArr xs)
  with assms obtain i where i: "array_index k = Some i"
    by (auto split: option.splits if_splits)
  show ?thesis
  proof (cases "i < length xs")
    case True
    with assms JArr i show ?thesis by auto
  next
    case False
    with assms JArr i show ?thesis by (auto simp: nth_append)
  qed
qed (use assms in auto)

lemma own_member: "k \<in> set (map fst kvs) \<Longrightarrow> \<exists>v. map_of kvs k = Some v"
  by (induction kvs) auto

lemma put_back_then_get:
  assumes "has_prop c k = Inr b" and "set_prop c k w = Inr c'"
    and "\<And>xs. c = JArr xs \<Longrightarrow> k \<noteq> ''length''"
  shows "get_prop c' k = Inr w \<and> c' \<noteq> JUndefined \<and> c' \<noteq> JNull"
proof (cases c)
  case (JObj kvs)
  with assms(1) have "k \<in> set (map fst kvs) \<or> k \<notin> set inherited_object_names"
    by (auto split: if_splits)
  then have "k \<in> set (map fst kvs) \<or> k \<noteq> ''__proto__''"
    by (auto simp: inherited_object_names_def)
  with assms(2) JObj show ?thesis
    by (auto simp: map_of_alist_update split: if_splits)
next
  case (JArr xs)
  with assms(3) have "k \<noteq> ''length''" by simp
  with assms(2) JArr obtain i where i: "array_index k = Some i"
    by (auto split: option.splits if_splits)
  show ?thesis
  proof (cases "i < length xs")
    case True
    with assms JArr i show ?thesis by auto
  next
    case False
    with assms JArr i show ?thesis by (auto simp: nth_append)
  qed
qed (use assms in auto)

lemma alist_update_key: "k \<in> set (map fst (alist_update k v kvs))"
  by (induction kvs) auto

lemma has_after_set:
  assumes "has_prop c k = Inr b" and "set_prop c k w = Inr c'"
    and "\<And>xs. c = JArr xs \<Longrightarrow> k \<noteq> ''length''"
  shows "(\<exists>b'. has_prop c' k = Inr b') \<and> (\<forall>xs. c' = JArr xs \<longrightarrow> k \<noteq> ''length'')"
proof (cases c)
  case (JObj kvs)
  with assms(1) have "k \<in> set (map fst kvs) \<or> k \<notin> set inherited_object_names"
    by (auto split: if_splits)
  then have "k \<in> set (map fst kvs) \<or> k \<noteq> ''__proto__''"
    by (auto simp: inherited_object_names_def)
  with assms(2) JObj have c': "c' = JObj (alist_update k w kvs)"
    by (auto split: if_splits)
  have "has_prop c' k = Inr True"
    unfolding c' using alist_update_key [of k w kvs] by simp
  then have "\<exists>b'. has_prop c' k = Inr b'" by (rule exI)
  with c' show ?thesis by simp
next
  case (JArr xs)
  with assms(3) have nl: "k \<noteq> ''length''" by simp
  with assms(2) JArr obtain i where i: "array_index k = Some i"
    by (auto split: option.splits if_splits)
  with assms(2) JArr obtain ys where "c' = JArr ys" by auto
  with i nl show ?thesis by simp
qed (use assms in auto)

lemma split_on_nonempty: "split_on d s \<noteq> []"
  by (induction s) (auto split: list.splits)

lemma path_parts_nonempty: "path_parts p \<noteq> []"
  by (simp add: path_parts_def split_on_nonempty)

lemma no_walk_into_number: "setAtPath_parts (JNum n) (a # rest) v = Inl TypeError"
  by (cases rest) simp_all

lemma set_parts_then_get:
  "parts \<noteq> [] \<Longrightarrow> last parts \<noteq> ''length'' \<Longrightarrow> last parts \<noteq> ''__proto__'' \<Longrightarrow>
   setAtPath_parts cur parts v = Inr cur' \<Longrightarrow> getAtPath_parts cur' parts = Inr v"
proof (induction cur parts v arbitrary: cur' rule: setAtPath_parts.induct)
  case (1 current v)
  then show ?case by simp
next
  case (2 current part v)
  from set_prop_then_get [of current part v cur'] "2.prems" show ?case by simp
next
  case (3 current part nxt rest v)
  from "3.prems"(2,3) have lst: "last (nxt # rest) \<noteq> ''length''" "last (nxt # rest) \<noteq> ''__proto__''"
    by simp_all
  from "3.prems"(4) obtain present where hp: "has_prop current part = Inr present"
    by (cases "has_prop current part") auto
  show ?case
  proof (cases present)
    case True
    then have pT: "present = True" by simp
    from True hp "3.prems"(4) obtain child child' where
      g: "get_prop current part = Inr child"
      and s: "setAtPath_parts child (nxt # rest) v = Inr child'"
      and w: "set_prop current part child' = Inr cur'"
      by (auto split: sum.splits)
    have arr: "part \<noteq> ''length''" if "current = JArr xs" for xs
    proof
      assume "part = ''length''"
      with that g have "child = JNum (int (length xs))" by (simp add: array_index_def all_digits_def is_digit_def)
      with s no_walk_into_number show False by simp
    qed
    from "3.IH"(1) [OF hp pT g _ lst s] have "getAtPath_parts child' (nxt # rest) = Inr v" by simp
    with put_back_then_get [OF hp w arr] show ?thesis by simp
  next
    case False
    then have pF: "present = False" by simp
    define fresh where "fresh = (if js_isNaN nxt then JObj [] else JArr [])"
    from False hp "3.prems"(4) obtain current' child' where
      c: "set_prop current part fresh = Inr current'"
      and s: "setAtPath_parts fresh (nxt # rest) v = Inr child'"
      and w: "set_prop current' part child' = Inr cur'"
      by (auto simp: fresh_def Let_def split: sum.splits)
    have arr: "part \<noteq> ''length''" if "current = JArr xs" for xs
      using that hp False by (auto simp: array_index_def all_digits_def is_digit_def split: option.splits if_splits)
    from put_back_then_get [OF hp c arr] have g': "get_prop current' part = Inr fresh" by simp
    from has_after_set [OF hp c arr] obtain b' where
      hp'': "has_prop current' part = Inr b'" and arr': "\<And>xs. current' = JArr xs \<Longrightarrow> part \<noteq> ''length''"
      by blast
    from "3.IH"(2) [OF hp pF fresh_def c _ lst s] have "getAtPath_parts child' (nxt # rest) = Inr v"
      by simp
    with put_back_then_get [OF hp'' w arr'] show ?thesis by simp
  qed
qed

lemma fresh_path_set:
  "setAtPath (JObj []) ''a.b[2].c'' (JStr ''v'')
     = Inr (JObj [(''a'', JObj [(''b'', JArr [JUndefined, JUndefined, JObj [(''c'', JStr ''v'')]])])])"
  by code_simp

lemma path_parts_examples:
  "path_parts ''a.b'' = [''a'', ''b'']"
  "path_parts ''a.b[0]'' = [''a'', ''b'', ''0'']"
  "arrayPathMatch ''a.b[0]'' = Some ''a.b''"
  "array_index ''0'' = Some 0"
  by code_simp+

lemma own_key: "map_of kvs k = Some v \<Longrightarrow> k \<in> set (map fst kvs)"
  by (induction kvs) (auto split: if_splits)

lemma set_prop_object:
  "k \<noteq> ''__proto__'' \<Longrightarrow> set_prop (JObj kvs) k v = Inr (JObj (alist_update k v kvs))"
  by simp

lemma length_example:
  "setAtPath (JObj [(''a'', JArr [JNum 1, JNum 2, JNum 3])]) ''a.length'' (JStr ''2'')
     = Inr (JObj [(''a'', JArr [JNum 1, JNum 2])])"
  "getAtPath (JObj [(''a'', JArr [JNum 1, JNum 2])]) ''a.length'' = Inr (JNum 2)"
  "setAtPath (JObj []) ''__proto__'' (JStr ''x'') = Inr (JObj [])"
  by code_simp+

lemma retarget_example:
  "write_output (JObj [(''a'', JObj [(''b'', JArr [JStr ''[LLM_PLACEHOLDER: scope_items]''])])])
      ''array_of_strings'' (JArr [JStr ''x'', JStr ''y'', JStr ''z'']) ''a.b[0]''
   = Inr (JObj [(''a'', JObj [(''b'', JArr [JStr ''x'', JStr ''y'', JStr ''z''])])])"
  by code_simp

section \<open>Replacing every match\<close>

subsection \<open>starts_with\<close>

lemma starts_with_iff: "starts_with s p \<longleftrightarrow> take (length p) s = p"
  by (induction s p rule: starts_with.induct) auto

lemma starts_with_append: "starts_with s p \<longleftrightarrow> (\<exists>r. s = p @ r)"
  unfolding starts_with_iff
  by (metis append_eq_conv_conj append_take_drop_id)

lemma starts_with_Cons [simp]: "starts_with (c # cs) (p # ps) = (c = p \<and> starts_with cs ps)"
  by simp

lemma starts_with_long:
  "length q \<le> length t \<Longrightarrow> starts_with (t @ r) q = starts_with t q"
  by (simp add: starts_with_iff)

lemma starts_with_hd: "starts_with s q \<Longrightarrow> q \<noteq> [] \<Longrightarrow> s \<noteq> [] \<and> hd s = hd q"
  by (cases s; cases q) auto

subsection \<open>replace_all: what it keeps\<close>

lemma set_replace_all:
  "set (replace_all m f s) \<subseteq> set s \<union> (\<Union>x. set (f x))"
proof (induction m f s rule: replace_all.induct)
  case (1 m f)
  then show ?case by (auto split: option.splits)
next
  case (2 m f c cs)
  show ?case
  proof (cases "m (c # cs)")
    case None
    with 2 show ?thesis by auto
  next
    case (Some k)
    show ?thesis
    proof (cases k)
      case 0
      with Some 2 show ?thesis by auto
    next
      case (Suc n)
      have "set (drop n cs) \<subseteq> set cs" by (rule set_drop_subset)
      with Some Suc 2 show ?thesis by auto
    qed
  qed
qed

lemma occurs_iff: "occurs m s \<longleftrightarrow> (\<exists>t. suffix t s \<and> m t \<noteq> None)"
proof (induction s)
  case Nil
  then show ?case by simp
next
  case (Cons c cs)
  then show ?case by (auto simp: suffix_Cons)
qed

lemma occurs_suffix: "occurs m t \<Longrightarrow> suffix t s \<Longrightarrow> occurs m s"
  unfolding occurs_iff by (meson suffix_order.trans)

lemma count_matches_zero: "count_matches m s = 0 \<longleftrightarrow> \<not> occurs m s"
proof (induction m s rule: count_matches.induct)
  case (1 m)
  then show ?case by (auto split: option.splits)
next
  case (2 m c cs)
  then show ?case by (auto split: option.splits nat.splits)
qed


lemma inert_checkD: "inert_check ptail t \<Longrightarrow> inert ptail t"
proof -
  assume c: "inert_check ptail t"
  then have base: "t \<noteq> []" "CHR ''['' \<notin> set t" "CHR '']'' \<notin> set t"
    by (simp_all add: inert_check_def)
  have "\<not> starts_with (t @ r) q" if q: "q \<noteq> []" "suffix q ptail" for q r
  proof
    assume sw: "starts_with (t @ r) q"
    from starts_with_hd [OF sw q(1)] base(1) have hd: "hd t = hd q" by simp
    from q have "hd q \<in> set ptail"
      by (metis hd_in_set set_mono_suffix subsetD)
    with hd c have long: "length ptail \<le> length t"
      and all: "list_all (\<lambda>q. q = [] \<or> \<not> starts_with t q) (suffixes ptail)"
      by (auto simp: inert_check_def)
    from q(2) have "q \<in> set (suffixes ptail)" by (simp add: in_set_suffixes)
    with all q(1) have n: "\<not> starts_with t q" by (auto simp: list_all_iff)
    from q(2) have "length q \<le> length ptail" by (rule suffix_length_le)
    with long have "length q \<le> length t" by simp
    with sw n show False by (simp add: starts_with_long)
  qed
  with base show ?thesis unfolding inert_def by blast
qed

lemma window:
  assumes inert: "\<And>x. inert ptail (f x)"
  shows "q \<noteq> [] \<Longrightarrow> suffix q ptail \<Longrightarrow> starts_with (replace_all m f s) q \<Longrightarrow>
     starts_with s q \<and> drop (length q) (replace_all m f s) = replace_all m f (drop (length q) s)"
proof (induction q arbitrary: s)
  case Nil
  then show ?case by simp
next
  case (Cons x q')
  note suf = Cons.prems(2)
  have clash: False if "starts_with (f y @ r) (x # q')" for y r
    using inert [of y] suf that unfolding inert_def by blast
  show ?case
  proof (cases s)
    case Nil
    with Cons.prems(3) clash [of _ "[]"] show ?thesis
      by (auto split: option.splits)
  next
    case (Cons c cs)
    show ?thesis
    proof (cases "m (c # cs)")
      case None
      with Cons Cons.prems(3) have x: "c = x" and sw': "starts_with (replace_all m f cs) q'"
        by simp_all
      show ?thesis
      proof (cases "q' = []")
        case True
        with Cons None x show ?thesis by simp
      next
        case False
        from suf have "suffix q' ptail" by (rule suffix_ConsD)
        from Cons.IH [OF False this sw'] Cons None x show ?thesis by simp
      qed
    next
      case (Some k)
      with Cons Cons.prems(3) clash show ?thesis
        by (cases k) auto
    qed
  qed
qed

lemma occurs_skip:
  assumes "\<And>t. tok t \<noteq> None \<Longrightarrow> t \<noteq> [] \<and> hd t = CHR ''[''" and "CHR ''['' \<notin> set u"
  shows "occurs tok (u @ v) = occurs tok v"
  using assms(2)
proof (induction u)
  case Nil
  then show ?case by simp
next
  case (Cons x u)
  have "tok (x # u @ v) = None"
  proof (rule ccontr)
    assume "tok (x # u @ v) \<noteq> None"
    from assms(1) [OF this] Cons.prems show False by simp
  qed
  with Cons show ?case by simp
qed

lemma bracket_token_start:
  "bracket_token (CHR ''['' # ptail) least t \<noteq> None \<Longrightarrow> t \<noteq> [] \<and> hd t = CHR ''[''"
  by (cases t) (auto simp: bracket_token_def span_token_def split: if_splits)

lemma occurs_skip_bracket:
  "CHR ''['' \<notin> set u \<Longrightarrow>
     occurs (bracket_token (CHR ''['' # ptail) least) (u @ v)
       = occurs (bracket_token (CHR ''['' # ptail) least) v"
  by (rule occurs_skip) (rule bracket_token_start)

lemma takeWhile_less_iff: "length (takeWhile P xs) < length xs \<longleftrightarrow> (\<exists>x\<in>set xs. \<not> P x)"
  by (induction xs) auto

lemma bracket_token_Some_iff:
  "bracket_token p least s \<noteq> None \<longleftrightarrow>
     starts_with s p \<and> CHR '']'' \<in> set (drop (length p) s)
     \<and> least \<le> length (takeWhile (\<lambda>c. c \<noteq> CHR '']'') (drop (length p) s))"
  by (auto simp: bracket_token_def span_token_def Let_def takeWhile_less_iff)

lemma no_token_after_replace:
  assumes inert: "\<And>x. inert ptail (f x)"
    and m_start: "\<And>t n. m t = Some n \<Longrightarrow> 0 < n \<and> t \<noteq> [] \<and> hd t \<noteq> CHR '']''"
    and least: "least \<le> 1"
    and cover: "\<And>t. suffix t s \<Longrightarrow> bracket_token (CHR ''['' # ptail) least t \<noteq> None \<Longrightarrow> m t \<noteq> None"
  shows "\<not> occurs (bracket_token (CHR ''['' # ptail) least) (replace_all m f s)"
  using assms
proof (induction m f s rule: replace_all.induct)
  case (1 m f)
  from "1.prems"(2) [of "[]"] have "m [] = None" by (cases "m []") auto
  then show ?case
    by (simp add: bracket_token_def span_token_def)
next
  case (2 m f c cs)
  let ?tok = "bracket_token (CHR ''['' # ptail) least"
  have texts: "CHR ''['' \<notin> set (f x)" "CHR '']'' \<notin> set (f x)" for x
    using "2.prems"(1) [of x] by (simp_all add: inert_def)
  show ?case
  proof (cases "m (c # cs)")
    case None
    have cov: "m t \<noteq> None" if "suffix t cs" "?tok t \<noteq> None" for t
      using "2.prems"(4) [of t] that by (simp add: suffix_Cons)
    from "2.IH"(1) [OF None "2.prems"(1-3) cov]
    have rest: "\<not> occurs ?tok (replace_all m f cs)" by simp
    have here: "?tok (c # replace_all m f cs) = None"
    proof (rule ccontr)
      assume "?tok (c # replace_all m f cs) \<noteq> None"
      from this [unfolded bracket_token_Some_iff] have c: "c = CHR ''[''" and sw: "starts_with (replace_all m f cs) ptail"
        and close: "CHR '']'' \<in> set (drop (length ptail) (replace_all m f cs))"
        and k: "least \<le> length (takeWhile (\<lambda>c. c \<noteq> CHR '']'') (drop (length ptail) (replace_all m f cs)))"
        by simp_all
      have w: "starts_with cs ptail
          \<and> drop (length ptail) (replace_all m f cs) = replace_all m f (drop (length ptail) cs)"
      proof (cases "ptail = []")
        case True
        then show ?thesis by simp
      next
        case False
        from window [of ptail f, OF "2.prems"(1) False suffix_order.refl sw] show ?thesis .
      qed
      define r where "r = drop (length ptail) cs"
      from w close have "CHR '']'' \<in> set (replace_all m f r)" by (simp add: r_def)
      with set_replace_all [of m f r] texts have in_r: "CHR '']'' \<in> set r" by auto
      have k': "least \<le> length (takeWhile (\<lambda>c. c \<noteq> CHR '']'') r)"
      proof (cases "least = 0")
        case True
        then show ?thesis by simp
      next
        case False
        with "2.prems"(3) have l1: "least = 1" by simp
        from in_r obtain y r' where r: "r = y # r'" by (cases r) auto
        have "y \<noteq> CHR '']''"
        proof
          assume "y = CHR '']''"
          with r "2.prems"(2) [of r] have "m r = None" by (cases "m r") auto
          with r \<open>y = CHR '']''\<close> have "replace_all m f r = CHR '']'' # replace_all m f r'" by simp
          with k w l1 show False by (simp add: r_def)
        qed
        with r l1 show ?thesis by simp
      qed
      from c w in_r k' have "?tok (c # cs) \<noteq> None"
        unfolding bracket_token_Some_iff by (simp add: r_def)
      with "2.prems"(4) [of "c # cs"] None show False by simp
    qed
    from None rest here show ?thesis by simp
  next
    case (Some k)
    from "2.prems"(2) [OF Some] obtain n where k: "k = Suc n" by (cases k) auto
    have cov: "m t \<noteq> None" if "suffix t (drop n cs)" "?tok t \<noteq> None" for t
    proof -
      have "suffix (drop n cs) (c # cs)" by (simp add: suffix_Cons suffix_drop)
      with that(1) have "suffix t (c # cs)" by (meson suffix_order.trans)
      with "2.prems"(4) that(2) show ?thesis by simp
    qed
    from "2.IH"(3) [OF Some k "2.prems"(1-3) cov]
    have "\<not> occurs ?tok (replace_all m f (drop n cs))" by simp
    with Some k texts show ?thesis by (simp add: occurs_skip_bracket)
  qed
qed

section \<open>The steps of the deterministic polish pass\<close>

subsection \<open>first occurrence\<close>

subsection \<open>the sentence expression\<close>

lemma find_SomeD: "find P xs = Some x \<Longrightarrow> P x \<and> x \<in> set xs"
  by (induction xs) (auto split: if_splits)

lemma sentence_token_shape:
  assumes "sentence_token t = Some (n, tag)"
  shows "\<exists>run rest. t = CHR ''>'' # run @ ''</'' @ tag @ rest \<and> length run = n \<and> 2 \<le> n
           \<and> is_letter (last run) \<and> tag \<in> set [''p'', ''div'', ''span'', ''td'']"
proof -
  from assms obtain r where t: "t = CHR ''>'' # r"
    by (cases t) (auto simp: sentence_token_def split: if_splits)
  define run where "run = takeWhile (\<lambda>x. x \<noteq> CHR ''<'' \<and> x \<noteq> CHR ''>'') r"
  define rest where "rest = dropWhile (\<lambda>x. x \<noteq> CHR ''<'' \<and> x \<noteq> CHR ''>'') r"
  have r: "r = run @ rest" by (simp add: run_def rest_def)
  from assms t have c: "2 \<le> length run" "is_letter (last run)" "starts_with rest ''</''"
    and f: "find (\<lambda>tag. starts_with (drop 2 rest) tag) [''p'', ''div'', ''span'', ''td''] = Some tag"
    and n: "n = length run"
    by (auto simp: sentence_token_def Let_def run_def rest_def split: if_splits option.splits)
  from c(3) obtain rest2 where rest: "rest = ''</'' @ rest2" by (auto simp: starts_with_append)
  from find_SomeD [OF f]
  have "starts_with (drop 2 rest) tag" and tag: "tag \<in> set [''p'', ''div'', ''span'', ''td'']"
    by blast+
  with rest obtain rest3 where "rest2 = tag @ rest3" by (auto simp: starts_with_append)
  with t r rest c n tag show ?thesis by auto
qed

lemma exec_from_shape:
  "exec_from pos xs = Some (start, n, tag) \<Longrightarrow>
     pos \<le> start \<and> start - pos < length xs \<and> sentence_token (drop (start - pos) xs) = Some (n, tag)"
proof (induction xs arbitrary: pos)
  case Nil
  then show ?case by simp
next
  case (Cons c cs)
  show ?case
  proof (cases "sentence_token (c # cs)")
    case None
    with Cons.prems have "exec_from (pos + 1) cs = Some (start, n, tag)" by simp
    from Cons.IH [OF this] have le: "pos + 1 \<le> start" and lt: "start - (pos + 1) < length cs"
      and tok: "sentence_token (drop (start - (pos + 1)) cs) = Some (n, tag)"
      by simp_all
    from le have eq: "start - pos = Suc (start - (pos + 1))" by simp
    from le lt tok show ?thesis unfolding eq by simp
  next
    case (Some a)
    with Cons.prems show ?thesis by (cases a) auto
  qed
qed

lemma exec_sentence_shape:
  assumes "exec_sentence i s = Some (start, n, tag)"
  shows "\<exists>A run rest. s = A @ CHR ''>'' # run @ ''</'' @ tag @ rest \<and> length A = start
           \<and> i \<le> start \<and> length run = n \<and> 2 \<le> n \<and> is_letter (last run)
           \<and> tag \<in> set [''p'', ''div'', ''span'', ''td'']"
proof -
  from assms have le: "i \<le> length s" and e: "exec_from i (drop i s) = Some (start, n, tag)"
    by (auto simp: exec_sentence_def split: if_splits)
  from exec_from_shape [OF e] have i: "i \<le> start" and lt: "start - i < length (drop i s)"
    and tok: "sentence_token (drop (start - i) (drop i s)) = Some (n, tag)"
    by blast+
  from i have "drop (start - i) (drop i s) = drop start s" by simp
  with tok have tok': "sentence_token (drop start s) = Some (n, tag)" by (simp only:)
  from sentence_token_shape [OF tok'] obtain run rest where
    d: "drop start s = CHR ''>'' # run @ ''</'' @ tag @ rest" and rest: "length run = n" "2 \<le> n"
      "is_letter (last run)" "tag \<in> set [''p'', ''div'', ''span'', ''td'']"
    by blast
  from lt i have "start < length s" by simp
  then have "length (take start s) = start" by simp
  moreover have "s = take start s @ drop start s" by simp
  ultimately show ?thesis using d rest i
    by (metis (no_types, lifting))
qed

lemma letter_not_colon: "is_letter c \<Longrightarrow> c \<noteq> CHR '':''"
  by (auto simp: is_letter_def)

lemma marker_token_start:
  "marker_token t = Some n \<Longrightarrow> 0 < n \<and> t \<noteq> [] \<and> hd t \<noteq> CHR '']''"
  by (cases t) (auto simp: marker_token_def bracket_token_def span_token_def Let_def split: if_splits)

lemma lower_bracket: "lower c = lower CHR ''['' \<Longrightarrow> c = CHR ''[''"
  by (auto simp: lower_def split: if_splits option.splits)

lemma literal_ci_start:
  "literal_ci (CHR ''['' # pat) t = Some n \<Longrightarrow> 0 < n \<and> t \<noteq> [] \<and> hd t \<noteq> CHR '']''"
  by (cases t) (auto simp: literal_ci_def dest: lower_bracket split: if_splits)

lemma spaces_token_start:
  "spaces_token t = Some n \<Longrightarrow> 0 < n \<and> t \<noteq> [] \<and> hd t \<noteq> CHR '']''"
  by (cases t) (auto simp: spaces_token_def Let_def split: if_splits)

lemma keeps_no_token:
  assumes "\<not> occurs (bracket_token (CHR ''['' # ptail) least) s"
    and "\<And>x. inert ptail (f x)"
    and "\<And>t n. m t = Some n \<Longrightarrow> 0 < n \<and> t \<noteq> [] \<and> hd t \<noteq> CHR '']''"
    and "least \<le> 1"
  shows "\<not> occurs (bracket_token (CHR ''['' # ptail) least) (replace_all m f s)"
proof (rule no_token_after_replace [OF assms(2) assms(3) assms(4)])
  fix t
  assume "suffix t s" and "bracket_token (CHR ''['' # ptail) least t \<noteq> None"
  with assms(1) show "m t \<noteq> None" by (auto simp: occurs_iff)
qed

lemma default_texts_inert:
  "inert ''LLM_PLACEHOLDER:'' ''Issue identified requiring attention.''"
  "inert ''LLM_PLACEHOLDER:'' ''Risk: Potential impact on operations if not addressed.''"
  "inert ''LLM_PLACEHOLDER:'' ''Process inefficiency identified.''"
  "inert ''LLM_PLACEHOLDER:'' ''Implement automation to streamline workflow.''"
  "inert ''LLM_PLACEHOLDER:'' ''This fix will reduce manual effort and improve efficiency.''"
  "inert ''LLM_PLACEHOLDER:'' ''Ready to fix your workflow?''"
  "inert ''LLM_PLACEHOLDER:'' ''Schedule a call to discuss implementation.''"
  "inert ''LLM_PLACEHOLDER:'' ''Analysis reveals opportunities for process improvement.''"
  "inert ''LLM_PLACEHOLDER:'' ''This audit assessed the workflow processes.''"
  "inert ''LLM_PLACEHOLDER:'' ''Calculations based on provided metrics.''"
  "inert ''LLM_PLACEHOLDER:'' ''See analysis details.''"
  by (rule inert_checkD, code_simp)+

lemma default_text_inert: "inert ''LLM_PLACEHOLDER:'' (default_text x)"
  unfolding default_text_def by (simp only: default_texts_inert simp_thms split: if_splits)


lemma template_texts_inert:
  "inert ''LLM_PLACEHOLDER:'' ''key metrics''"
  "inert ''LLM_PLACEHOLDER:'' ''the analysis start date''"
  "inert ''LLM_PLACEHOLDER:'' ''the analysis end date''"
  "inert ''LLM_PLACEHOLDER:'' ''certain time periods''"
  "inert ''LLM_PLACEHOLDER:'' ''certain categories''"
  "inert ''LLM_PLACEHOLDER:'' ''detailed''"
  "inert ''LLM_PLACEHOLDER:'' ''specific areas''"
  "inert ''LLM_PLACEHOLDER:'' '' ''"
  by (rule inert_checkD, code_simp)+

lemma keeps_no_marker_literal:
  assumes "\<not> occurs marker_token s" and "inert ''LLM_PLACEHOLDER:'' rep"
  shows "\<not> occurs marker_token (replace_all (literal_ci (CHR ''['' # pat)) (\<lambda>_. rep) s)"
  using assms unfolding marker_token_def
  by (intro keeps_no_token) (auto dest: literal_ci_start)

lemma template_vars_keep_no_marker:
  "\<not> occurs marker_token s \<Longrightarrow> \<not> occurs marker_token (replace_template_vars s)"
  unfolding replace_template_vars_def template_vars_def
  by (simp add: keeps_no_marker_literal template_texts_inert)

lemma spaces_keep_no_marker:
  "\<not> occurs marker_token s \<Longrightarrow> \<not> occurs marker_token (replace_all spaces_token (\<lambda>_. '' '') s)"
  unfolding marker_token_def
  by (intro keeps_no_token) (auto dest: spaces_token_start simp: template_texts_inert)

lemma markers_replaced:
  "\<not> occurs marker_token (replace_all marker_token (\<lambda>m. default_text (placeholder_field m)) s)"
  unfolding marker_token_def
proof (rule no_token_after_replace)
  show "inert ''LLM_PLACEHOLDER:'' (default_text (placeholder_field x))" for x
    by (rule default_text_inert)
  show "bracket_token ''[LLM_PLACEHOLDER:'' 1 t = Some n \<Longrightarrow> 0 < n \<and> t \<noteq> [] \<and> hd t \<noteq> CHR '']''" for t n
    using marker_token_start [of t n] by (simp add: marker_token_def)
qed simp_all

subsection \<open>dollar signs\<close>

lemma default_text_plain: "CHR ''$'' \<notin> set (default_text x)"
  by (simp add: default_text_def)

lemma step3_no_marker: "\<not> occurs marker_token (fst (step3 s))"
proof (cases "count_matches marker_token s = 0")
  case True
  then have "\<not> occurs marker_token s" by (simp add: count_matches_zero)
  with True show ?thesis by (simp add: step3_def Let_def)
next
  case False
  then show ?thesis by (simp add: step3_def Let_def markers_replaced)
qed

lemma step4_no_marker: "\<not> occurs marker_token s \<Longrightarrow> \<not> occurs marker_token (fst (step4 s))"
  by (simp add: step4_def Let_def template_vars_keep_no_marker)

lemma step6_no_marker: "\<not> occurs marker_token s \<Longrightarrow> \<not> occurs marker_token (fst (step6 s))"
  by (simp add: step6_def Let_def spaces_keep_no_marker)

lemma polishHTML_deterministic:
  "deterministic_path dry prompt_found generated \<Longrightarrow>
     polishHTML dry prompt_found generated percent html = manualPolishHTML html"
  by (auto simp: deterministic_path_def polishHTML_def Let_def split: sum.splits)

section \<open>The punctuation loop reaches a text it leaves alone\<close>

lemma letter_no_punctuation: "is_letter c \<Longrightarrow> c \<notin> set ''.!?:,''"
  by (auto simp: is_letter_def)

lemma sentence_token_hd: "sentence_token t = Some x \<Longrightarrow> t \<noteq> [] \<and> hd t = CHR ''>''"
  by (cases t) (auto simp: sentence_token_def split: if_splits)

lemma sentence_token_run:
  assumes "sentence_token t = Some (n, tag)"
  shows "\<exists>run rest. t = CHR ''>'' # run @ ''</'' @ tag @ rest \<and> length run = n \<and> 2 \<le> n
           \<and> is_letter (last run) \<and> tag \<in> set [''p'', ''div'', ''span'', ''td'']
           \<and> CHR ''<'' \<notin> set run \<and> CHR ''>'' \<notin> set run"
proof -
  from assms obtain r where t: "t = CHR ''>'' # r"
    by (cases t) (auto simp: sentence_token_def split: if_splits)
  define run where "run = takeWhile (\<lambda>x. x \<noteq> CHR ''<'' \<and> x \<noteq> CHR ''>'') r"
  define rest where "rest = dropWhile (\<lambda>x. x \<noteq> CHR ''<'' \<and> x \<noteq> CHR ''>'') r"
  have r: "r = run @ rest" by (simp add: run_def rest_def)
  have plain: "CHR ''<'' \<notin> set run \<and> CHR ''>'' \<notin> set run"
    unfolding run_def by (auto dest: set_takeWhileD)
  from assms t have c: "2 \<le> length run" "is_letter (last run)" "starts_with rest ''</''"
    and f: "find (\<lambda>tag. starts_with (drop 2 rest) tag) [''p'', ''div'', ''span'', ''td''] = Some tag"
    and n: "n = length run"
    by (auto simp: sentence_token_def Let_def run_def rest_def split: if_splits option.splits)
  from c(3) obtain rest2 where rest: "rest = ''</'' @ rest2" by (auto simp: starts_with_append)
  from find_SomeD [OF f]
  have "starts_with (drop 2 rest) tag" and tag: "tag \<in> set [''p'', ''div'', ''span'', ''td'']"
    by blast+
  with rest obtain rest3 where "rest2 = tag @ rest3" by (auto simp: starts_with_append)
  with t r rest c n tag plain show ?thesis by auto
qed

lemma run_split:
  assumes "CHR ''<'' \<notin> set run" "CHR ''>'' \<notin> set run" "c = CHR ''<'' \<or> c = CHR ''>''"
  shows "takeWhile (\<lambda>x. x \<noteq> CHR ''<'' \<and> x \<noteq> CHR ''>'') (run @ c # rest) = run"
    and "dropWhile (\<lambda>x. x \<noteq> CHR ''<'' \<and> x \<noteq> CHR ''>'') (run @ c # rest) = c # rest"
proof -
  from assms(1,2) have all: "\<And>x. x \<in> set run \<Longrightarrow> x \<noteq> CHR ''<'' \<and> x \<noteq> CHR ''>''" by auto
  from assms(3) show "takeWhile (\<lambda>x. x \<noteq> CHR ''<'' \<and> x \<noteq> CHR ''>'') (run @ c # rest) = run"
    by (subst takeWhile_append2 [OF all]) auto
  from assms(3) show "dropWhile (\<lambda>x. x \<noteq> CHR ''<'' \<and> x \<noteq> CHR ''>'') (run @ c # rest) = c # rest"
    by (subst dropWhile_append2 [OF all]) auto
qed

lemma sentence_token_build:
  assumes "CHR ''<'' \<notin> set run" "CHR ''>'' \<notin> set run" "2 \<le> length run" "is_letter (last run)"
    and "tag \<in> set [''p'', ''div'', ''span'', ''td'']"
  shows "sentence_token (CHR ''>'' # run @ ''</'' @ tag @ rest) = Some (length run, tag)"
proof -
  from assms(5) have "find (\<lambda>t. starts_with (tag @ rest) t) [''p'', ''div'', ''span'', ''td''] = Some tag"
    by auto
  with assms(3,4) show ?thesis
    unfolding sentence_token_def by (simp add: run_split [OF assms(1,2)] Let_def)
qed

lemma sentence_token_dotted:
  assumes "CHR ''<'' \<notin> set run" "CHR ''>'' \<notin> set run"
  shows "sentence_token (CHR ''>'' # run @ CHR ''.'' # CHR ''<'' # rest) = None"
proof -
  have "CHR ''<'' \<notin> set (run @ ''.'')" "CHR ''>'' \<notin> set (run @ ''.'')" using assms by auto
  from run_split(1) [OF this, of "CHR ''<''" rest]
  have tw: "takeWhile (\<lambda>x. x \<noteq> CHR ''<'' \<and> x \<noteq> CHR ''>'') (run @ CHR ''.'' # CHR ''<'' # rest)
      = run @ ''.''" by simp
  show ?thesis
    unfolding sentence_token_def by (simp add: tw Let_def is_letter_def)
qed

lemma starts_with_before_gt:
  "CHR ''>'' \<notin> set tag \<Longrightarrow> starts_with (d @ CHR ''>'' # v) tag = starts_with d tag"
proof (induction tag arbitrary: d)
  case Nil
  then show ?case by simp
next
  case (Cons a tag)
  then show ?case by (cases d) auto
qed

lemma sentence_token_local:
  assumes "u \<noteq> []"
  shows "sentence_token (u @ CHR ''>'' # v) = sentence_token (u @ ''>'')"
proof -
  from assms obtain c u' where u: "u = c # u'" by (cases u) auto
  let ?P = "\<lambda>x. x \<noteq> CHR ''<'' \<and> x \<noteq> CHR ''>''"
  show ?thesis
  proof (cases "\<forall>x\<in>set u'. ?P x")
    case True
    then have "takeWhile ?P (u' @ CHR ''>'' # w) = u'" "dropWhile ?P (u' @ CHR ''>'' # w) = CHR ''>'' # w" for w
      by (simp_all add: takeWhile_append2 dropWhile_append2)
    then show ?thesis unfolding u sentence_token_def by (simp add: Let_def)
  next
    case False
    then have tw: "takeWhile ?P (u' @ CHR ''>'' # w) = takeWhile ?P u'"
      and dw: "dropWhile ?P (u' @ CHR ''>'' # w) = dropWhile ?P u' @ CHR ''>'' # w" for w
      by (auto simp: takeWhile_append1 dropWhile_append1)
    from False have ne: "dropWhile ?P u' \<noteq> []" by auto
    then obtain x d where d: "dropWhile ?P u' = x # d" by (cases "dropWhile ?P u'") auto
    show ?thesis
    proof (cases d)
      case Nil
      with d show ?thesis unfolding u sentence_token_def by (simp add: Let_def tw dw)
    next
      case (Cons y d')
      with d show ?thesis unfolding u sentence_token_def
        by (simp add: Let_def tw dw starts_with_before_gt)
    qed
  qed
qed

lemma exec_from_None:
  "exec_from pos xs = None \<Longrightarrow> sentence_token (drop j xs) = None"
proof (induction xs arbitrary: pos j)
  case Nil
  then show ?case by (simp add: sentence_token_def)
next
  case (Cons c cs)
  from Cons.prems have here: "sentence_token (c # cs) = None" and later: "exec_from (pos + 1) cs = None"
    by (auto split: option.splits)
  show ?case
  proof (cases j)
    case 0
    with here show ?thesis by simp
  next
    case (Suc j')
    with Cons.IH [OF later, of j'] show ?thesis by simp
  qed
qed

lemma exec_from_leftmost:
  "exec_from pos xs = Some (start, n, tag) \<Longrightarrow> j < start - pos \<Longrightarrow> sentence_token (drop j xs) = None"
proof (induction xs arbitrary: pos j)
  case Nil
  then show ?case by simp
next
  case (Cons c cs)
  show ?case
  proof (cases "sentence_token (c # cs)")
    case None
    with Cons.prems have later: "exec_from (pos + 1) cs = Some (start, n, tag)" by simp
    show ?thesis
    proof (cases j)
      case 0
      with None show ?thesis by simp
    next
      case (Suc j')
      with Cons.prems(2) have "j' < start - (pos + 1)" by simp
      from Cons.IH [OF later this] Suc show ?thesis by simp
    qed
  next
    case (Some a)
    with Cons.prems show ?thesis by (cases a) auto
  qed
qed

lemma exec_sentence_None:
  assumes "exec_sentence i s = None" and "i \<le> q"
  shows "sentence_token (drop q s) = None"
proof (cases "i > length s")
  case True
  with assms(2) show ?thesis by (simp add: sentence_token_def)
next
  case False
  with assms(1) have "exec_from i (drop i s) = None" by (simp add: exec_sentence_def)
  from exec_from_None [OF this, of "q - i"] assms(2) show ?thesis by simp
qed

lemma exec_sentence_Some:
  assumes "exec_sentence i s = Some (start, n, tag)"
  shows "i \<le> start" and "start < length s" and "sentence_token (drop start s) = Some (n, tag)"
    and "\<And>q. i \<le> q \<Longrightarrow> q < start \<Longrightarrow> sentence_token (drop q s) = None"
proof -
  from assms have le: "i \<le> length s" and e: "exec_from i (drop i s) = Some (start, n, tag)"
    by (auto simp: exec_sentence_def split: if_splits)
  from exec_from_shape [OF e] show i: "i \<le> start" by blast
  from exec_from_shape [OF e] have "start - i < length (drop i s)" by blast
  with i show "start < length s" by simp
  from exec_from_shape [OF e] have "sentence_token (drop (start - i) (drop i s)) = Some (n, tag)"
    by blast
  with i show "sentence_token (drop start s) = Some (n, tag)" by simp
  fix q assume q: "i \<le> q" "q < start"
  then have "q - i < start - i" by simp
  from exec_from_leftmost [OF e this] q show "sentence_token (drop q s) = None" by simp
qed

lemma replace_first_from_at:
  "(\<And>q. q < length A \<Longrightarrow> \<not> starts_with (drop q (A @ pat @ B)) pat) \<Longrightarrow>
   replace_first_from pre (A @ pat @ B) pat rep = pre @ A @ get_substitution pat (pre @ A) B rep @ B"
proof (induction A arbitrary: pre)
  case Nil
  show ?case
  proof (cases "pat @ B")
    case Nil
    then show ?thesis by simp
  next
    case (Cons c cs)
    have "starts_with (pat @ B) pat" by (simp add: starts_with_append)
    then show ?thesis unfolding Cons [symmetric] using Cons
      by (metis append_Nil append_Nil2 append_eq_conv_conj replace_first_from.simps(2))
  qed
next
  case (Cons a A)
  from Cons.prems [of 0] have no: "\<not> starts_with (a # A @ pat @ B) pat" by simp
  have "\<And>q. q < length A \<Longrightarrow> \<not> starts_with (drop q (A @ pat @ B)) pat"
    using Cons.prems [of "Suc q" for q] by simp
  from Cons.IH [OF this, of "pre @ [a]"] no show ?case by simp
qed

lemma replace_first_at:
  "(\<And>q. q < length A \<Longrightarrow> \<not> starts_with (drop q (A @ pat @ B)) pat) \<Longrightarrow>
   replace_first (A @ pat @ B) pat rep = A @ get_substitution pat A B rep @ B"
  unfolding replace_first_def using replace_first_from_at [of A pat B "[]" rep] by simp

lemma inside_no_token:
  assumes "CHR ''>'' \<notin> set M" and "length A < q" and "q \<le> length A + length M"
  shows "sentence_token (drop q (A @ c # M @ R)) = None"
proof -
  define k where "k = q - length A - 1"
  have k: "k < length M" and q: "q = length A + 1 + k" using assms(2,3) by (simp_all add: k_def)
  have "drop q (A @ c # M @ R) = drop k M @ R" unfolding q using k by simp
  moreover from k have "drop k M = M ! k # drop (Suc k) M" by (simp add: Cons_nth_drop_Suc)
  moreover from k assms(1) have "M ! k \<noteq> CHR ''>''" by (metis nth_mem)
  ultimately show ?thesis by (simp add: sentence_token_def)
qed

lemma tag_no_gt: "tag \<in> set [''p'', ''div'', ''span'', ''td''] \<Longrightarrow> CHR ''>'' \<notin> set tag"
  by auto

lemma fix_sentences_step:
  assumes e: "exec_sentence i s = Some (start, n, tag)"
  shows "\<exists>A run rest.
           s = A @ CHR ''>'' # run @ ''</'' @ tag @ rest \<and> length A = start \<and> length run = n
           \<and> 2 \<le> n \<and> CHR ''<'' \<notin> set run \<and> CHR ''>'' \<notin> set run \<and> is_letter (last run)
           \<and> tag \<in> set [''p'', ''div'', ''span'', ''td'']
           \<and> fix_sentences i s k =
               (if 20 < n
                then fix_sentences (start + (n + 3 + length tag))
                       (replace_first s (CHR ''>'' # run @ ''</'' @ tag) (CHR ''>'' # run @ ''.</'' @ tag))
                       (k + 1)
                else fix_sentences (start + (n + 3 + length tag)) s k)"
proof -
  note ex = exec_sentence_Some [OF e]
  from sentence_token_run [OF ex(3)] obtain run rest where
    d: "drop start s = CHR ''>'' # run @ ''</'' @ tag @ rest" and n: "length run = n" "2 \<le> n"
    and letter: "is_letter (last run)" and tag: "tag \<in> set [''p'', ''div'', ''span'', ''td'']"
    and plain: "CHR ''<'' \<notin> set run" "CHR ''>'' \<notin> set run"
    by blast
  define A where "A = take start s"
  have A: "length A = start" using ex(2) by (simp add: A_def)
  have s: "s = A @ CHR ''>'' # run @ ''</'' @ tag @ rest"
    using d append_take_drop_id [of start s] by (simp add: A_def)
  have run_eq: "take n (drop (start + 1) s) = run"
    using s A n by simp
  from n have "run \<noteq> []" by auto
  with letter have punct: "\<not> ends_with_punctuation run"
    using letter_no_punctuation [of "last run"] by (simp add: ends_with_punctuation_def)
  have "fix_sentences i s k =
      (if 20 < n
       then fix_sentences (start + (n + 3 + length tag))
              (replace_first s (CHR ''>'' # run @ ''</'' @ tag) (CHR ''>'' # run @ ''.</'' @ tag))
              (k + 1)
       else fix_sentences (start + (n + 3 + length tag)) s k)"
    by (subst fix_sentences.simps)
      (simp only: e option.case prod.case Let_def run_eq, simp add: punct n numeral_3_eq_3)
  with s A n letter tag plain show ?thesis by blast
qed

lemma fix_sentences_fixed:
  assumes "\<forall>q n tag. sentence_token (drop q s) = Some (n, tag) \<longrightarrow> n \<le> 20"
  shows "fix_sentences i s k = Some (s, k)"
  using assms
proof (induction "length s + 1 - i" arbitrary: i rule: less_induct)
  case less
  show ?case
  proof (cases "exec_sentence i s")
    case None
    then show ?thesis by (subst fix_sentences.simps) simp
  next
    case (Some a)
    then obtain start n tag where e: "exec_sentence i s = Some (start, n, tag)"
      by (cases a) auto
    note ex = exec_sentence_Some [OF e]
    from less.prems ex(3) have short: "\<not> 20 < n" by fastforce
    from fix_sentences_step [OF e, of k] short
    have step: "fix_sentences i s k = fix_sentences (start + (n + 3 + length tag)) s k"
      by auto
    have "length s + 1 - (start + (n + 3 + length tag)) < length s + 1 - i"
      using ex(1,2) by simp
    from less.hyps [OF this less.prems] step show ?thesis by simp
  qed
qed

lemma step_entry_zero: "step_entry t 0 r = []"
  by (simp add: step_entry_def)

section \<open>Replacements in context\<close>

lemma replace_all_context:
  assumes splice: "\<And>u t k. Q (u @ t) \<Longrightarrow> m t = Some k \<Longrightarrow> Q (u @ f (take k t) @ drop k t)"
  shows "Q (u @ s) \<Longrightarrow> Q (u @ replace_all m f s)"
  using splice
proof (induction m f s arbitrary: u rule: replace_all.induct)
  case (1 m f)
  note q = "1.prems"(1) and spl = "1.prems"(2)
  show ?case
  proof (cases "m []")
    case None
    with q show ?thesis by simp
  next
    case (Some n)
    from spl [OF q Some] Some show ?thesis by simp
  qed
next
  case (2 m f c cs)
  note q = "2.prems"(1) and spl = "2.prems"(2)
  show ?case
  proof (cases "m (c # cs)")
    case None
    from q have "Q ((u @ [c]) @ cs)" by simp
    from "2.IH"(1) [OF None this spl] None show ?thesis by simp
  next
    case (Some k)
    from spl [OF q Some]
    have s: "Q (u @ f (take k (c # cs)) @ drop k (c # cs))" .
    show ?thesis
    proof (cases k)
      case 0
      with s have "Q ((u @ f [] @ [c]) @ cs)" by simp
      from "2.IH"(2) [OF Some 0 this spl] Some 0 show ?thesis by simp
    next
      case (Suc n)
      with s have "Q ((u @ f (take (Suc n) (c # cs))) @ drop n cs)" by simp
      from "2.IH"(3) [OF Some Suc this spl] Some Suc show ?thesis by simp
    qed
  qed
qed

lemma replace_all_keeps:
  assumes "\<And>u t k. Q (u @ t) \<Longrightarrow> m t = Some k \<Longrightarrow> Q (u @ f (take k t) @ drop k t)" and "Q s"
  shows "Q (replace_all m f s)"
  using replace_all_context [of Q m f "[]" s] assms by simp

lemma plain_dollars_append:
  "plain_dollars (x @ y) \<longleftrightarrow>
     plain_dollars x \<and> plain_dollars y
     \<and> \<not> (x \<noteq> [] \<and> y \<noteq> [] \<and> last x = CHR ''$'' \<and> special (hd y))"
proof (induction x rule: plain_dollars.induct)
  case (1 a b r)
  then show ?case by auto
next
  case (2 a)
  then show ?case by (cases y) auto
next
  case 3
  then show ?case by simp
qed

lemma plain_dollars_none: "CHR ''$'' \<notin> set s \<Longrightarrow> plain_dollars s"
  by (induction s rule: plain_dollars.induct) auto

lemma get_substitution_plain_dollars:
  "plain_dollars t \<Longrightarrow> get_substitution m b a t = t"
  by (induction m b a t rule: get_substitution.induct) (auto simp: special_def)

lemma splice_plain_text:
  assumes "plain_dollars (u @ t)" and "t \<noteq> []" and "0 < k"
    and "r \<noteq> []" and "CHR ''$'' \<notin> set r" and "\<not> special (hd r)"
  shows "plain_dollars (u @ r @ drop k t)"
proof -
  define w v where "w = take k t" and "v = drop k t"
  have t: "t = w @ v" by (simp add: w_def v_def)
  from assms(1) have u: "plain_dollars u" and v: "plain_dollars v"
    unfolding t by (simp_all add: plain_dollars_append)
  from assms(4,5) have "last r \<noteq> CHR ''$''" by (metis last_in_set)
  with u v assms(4-6) plain_dollars_none [OF assms(5)] show ?thesis
    unfolding v_def [symmetric] by (simp add: plain_dollars_append)
qed

lemma splice_plain_deleted:
  assumes "plain_dollars (u @ t)" and "t \<noteq> []" and "0 < k" and "special (hd t)"
  shows "plain_dollars (u @ drop k t)"
proof -
  define w v where "w = take k t" and "v = drop k t"
  have t: "t = w @ v" by (simp add: w_def v_def)
  from assms(2,3) have w: "w \<noteq> []" "hd w = hd t" unfolding w_def by (cases t; cases k; simp)+
  from assms(1) have u: "plain_dollars u" and v: "plain_dollars v"
    and b: "\<not> (u \<noteq> [] \<and> w @ v \<noteq> [] \<and> last u = CHR ''$'' \<and> special (hd (w @ v)))"
    unfolding t by (simp_all add: plain_dollars_append)
  from b w assms(4) have "u \<noteq> [] \<Longrightarrow> last u \<noteq> CHR ''$''" by simp
  with u v show ?thesis unfolding v_def [symmetric] by (auto simp: plain_dollars_append)
qed

lemma plain_after_text:
  assumes "\<And>t k. m t = Some k \<Longrightarrow> 0 < k \<and> t \<noteq> []"
    and "\<And>x. f x \<noteq> [] \<and> CHR ''$'' \<notin> set (f x) \<and> \<not> special (hd (f x))"
    and "plain_dollars s"
  shows "plain_dollars (replace_all m f s)"
proof (rule replace_all_keeps [where Q = plain_dollars, OF _ assms(3)])
  fix u t k
  assume "plain_dollars (u @ t)" and "m t = Some k"
  with assms(1) [of t k] assms(2) [of "take k t"]
  show "plain_dollars (u @ f (take k t) @ drop k t)"
    by (intro splice_plain_text) simp_all
qed

lemma insufficient_token_start: "insufficient_token t = Some k \<Longrightarrow> 0 < k \<and> t \<noteq> []"
  by (cases t) (auto simp: insufficient_token_def bracket_token_def span_token_def Let_def split: if_splits)

lemma fence_token_start: "fence_token langs t = Some k \<Longrightarrow> 0 < k \<and> t \<noteq> [] \<and> hd t = CHR 0x60"
  by (cases t) (auto simp: fence_token_def split: if_splits)

lemma step1_plain_dollars: "plain_dollars s \<Longrightarrow> plain_dollars (fst (step1 s))"
  by (simp add: step1_def Let_def)
    (intro impI plain_after_text, auto dest: insufficient_token_start simp: special_def)

lemma step2_plain_dollars: "plain_dollars s \<Longrightarrow> plain_dollars (fst (step2 s))"
proof -
  assume p: "plain_dollars s"
  have "plain_dollars (replace_all (fence_token [''json'', ''html'', ''text'']) (\<lambda>_. []) s)"
  proof (rule replace_all_keeps [where Q = plain_dollars, OF _ p])
    fix u t k
    assume "plain_dollars (u @ t)" and "fence_token [''json'', ''html'', ''text''] t = Some k"
    with fence_token_start [of _ t k]
    show "plain_dollars (u @ [] @ drop k t)"
      using splice_plain_deleted [of u t k] by (simp add: special_def)
  qed
  with p show ?thesis by (simp add: step2_def Let_def)
qed

lemma default_text_start: "default_text x \<noteq> [] \<and> \<not> special (hd (default_text x))"
  by (simp add: default_text_def special_def)

lemma step3_plain_dollars: "plain_dollars s \<Longrightarrow> plain_dollars (fst (step3 s))"
  by (simp add: step3_def Let_def)
    (intro impI plain_after_text, auto dest: marker_token_start simp: default_text_start default_text_plain)

lemma literal_plain_dollars:
  "plain_dollars s \<Longrightarrow> r \<noteq> [] \<Longrightarrow> CHR ''$'' \<notin> set r \<Longrightarrow> \<not> special (hd r) \<Longrightarrow>
   plain_dollars (replace_all (literal_ci (CHR ''['' # pat)) (\<lambda>_. r) s)"
  by (intro plain_after_text) (auto dest: literal_ci_start)

lemma step4_plain_dollars: "plain_dollars s \<Longrightarrow> plain_dollars (fst (step4 s))"
  by (simp add: step4_def Let_def replace_template_vars_def template_vars_def
      literal_plain_dollars special_def)

lemma pd_left: "plain_dollars (x @ y) \<Longrightarrow> plain_dollars x"
  by (simp add: plain_dollars_append)

lemma pd_right: "plain_dollars (x @ y) \<Longrightarrow> plain_dollars y"
  by (simp add: plain_dollars_append)

lemma pd_join_last:
  "plain_dollars x \<Longrightarrow> plain_dollars y \<Longrightarrow> (x \<noteq> [] \<Longrightarrow> last x \<noteq> CHR ''$'') \<Longrightarrow> plain_dollars (x @ y)"
  by (auto simp: plain_dollars_append)

lemma pd_join_hd:
  "plain_dollars x \<Longrightarrow> plain_dollars y \<Longrightarrow> (y \<noteq> [] \<Longrightarrow> \<not> special (hd y)) \<Longrightarrow> plain_dollars (x @ y)"
  by (auto simp: plain_dollars_append)

lemma dotted_trans: "dotted b c \<Longrightarrow> dotted a b \<Longrightarrow> dotted a c"
  by (induction rule: dotted.induct) (auto intro: dotted.intros)

lemma letter_not_dollar: "is_letter c \<Longrightarrow> c \<noteq> CHR ''$''"
  by (auto simp: is_letter_def)

lemma fix_sentences_settles2:
  assumes "plain_dollars s"
    and "\<forall>q<i. \<forall>n tag. sentence_token (drop q s) = Some (n, tag) \<longrightarrow> n \<le> 20"
  shows "\<exists>s' k'. fix_sentences i s k = Some (s', k')
           \<and> (\<forall>q n tag. sentence_token (drop q s') = Some (n, tag) \<longrightarrow> n \<le> 20)
           \<and> dotted s s'"
  using assms
proof (induction "length s + 1 - i" arbitrary: i s k rule: less_induct)
  case less
  note before = less.prems(2) [rule_format]
  show ?case
  proof (cases "exec_sentence i s")
    case None
    have "n \<le> 20" if "sentence_token (drop q s) = Some (n, tag)" for q n tag
    proof (cases "q < i")
      case True
      from before [OF True that] show ?thesis .
    next
      case False
      then have "i \<le> q" by simp
      from exec_sentence_None [OF None this] that show ?thesis by simp
    qed
    moreover from None have "fix_sentences i s k = Some (s, k)"
      by (subst fix_sentences.simps) simp
    ultimately show ?thesis using dotted.same by blast
  next
    case (Some a)
    then obtain start n tag where e: "exec_sentence i s = Some (start, n, tag)"
      by (cases a) auto
    note ex = exec_sentence_Some [OF e]
    from fix_sentences_step [OF e, of k] obtain A run rest where
      s: "s = A @ CHR ''>'' # run @ ''</'' @ tag @ rest" and A: "length A = start"
      and n: "length run = n" "2 \<le> n" and plain: "CHR ''<'' \<notin> set run" "CHR ''>'' \<notin> set run"
      and letter: "is_letter (last run)" and tag: "tag \<in> set [''p'', ''div'', ''span'', ''td'']"
      and step: "fix_sentences i s k =
               (if 20 < n
                then fix_sentences (start + (n + 3 + length tag))
                       (replace_first s (CHR ''>'' # run @ ''</'' @ tag) (CHR ''>'' # run @ ''.</'' @ tag))
                       (k + 1)
                else fix_sentences (start + (n + 3 + length tag)) s k)"
      by blast
    define i' where "i' = start + (n + 3 + length tag)"
    have inside: "i' \<le> length s" using s A n by (simp add: i'_def)
    from n have run_ne: "run \<noteq> []" by auto
    have early: "sentence_token (drop q s) = Some (n', tag') \<Longrightarrow> q < start \<Longrightarrow> n' \<le> 20" for q n' tag'
      using before [of q n' tag'] ex(4) [of q] by (cases "q < i") auto
    show ?thesis
    proof (cases "20 < n")
      case False
      have inv: "\<forall>q<i'. \<forall>n' tag'. sentence_token (drop q s) = Some (n', tag') \<longrightarrow> n' \<le> 20"
      proof (intro allI impI)
        fix q n' tag'
        assume q: "q < i'" and t: "sentence_token (drop q s) = Some (n', tag')"
        consider "q < start" | "q = start" | "start < q" by linarith
        then show "n' \<le> 20"
        proof cases
          case 1
          from early [OF t 1] show ?thesis .
        next
          case 2
          with t ex(3) False show ?thesis by simp
        next
          case 3
          have "CHR ''>'' \<notin> set (run @ ''</'' @ tag)" using plain tag_no_gt [OF tag] by simp
          from inside_no_token [OF this, of A q "CHR ''>''" rest] 3 q A n
          have "sentence_token (drop q s) = None" unfolding s i'_def by simp
          with t show ?thesis by simp
        qed
      qed
      have "length s + 1 - i' < length s + 1 - i"
        using ex(1,2) by (simp add: i'_def)
      from less.hyps [OF this less.prems(1) inv, of k] step False show ?thesis
        by (simp add: i'_def)
    next
      case True
      define match0 where "match0 = CHR ''>'' # run @ ''</'' @ tag"
      define rep where "rep = CHR ''>'' # run @ ''.</'' @ tag"
      have s0: "s = A @ match0 @ rest" using s by (simp add: match0_def)
      have s_split: "s = (A @ CHR ''>'' # run) @ (''</'' @ tag @ rest)" using s by simp
      have last_run: "last (A @ CHR ''>'' # run) = last run" using run_ne by simp
      from less.prems(1) have whole: "plain_dollars ((A @ CHR ''>'' # run) @ (''</'' @ tag @ rest))"
        unfolding s_split [symmetric] .
      have pd_l: "plain_dollars (A @ CHR ''>'' # run)" by (rule pd_left [OF whole])
      have pd_r: "plain_dollars (''</'' @ tag @ rest)" by (rule pd_right [OF whole])
      have pd_run: "plain_dollars (CHR ''>'' # run)" by (rule pd_right [OF pd_l])
      have "plain_dollars (''.</'' @ tag)"
        using tag by (intro plain_dollars_none) auto
      with pd_run have "plain_dollars ((CHR ''>'' # run) @ (''.</'' @ tag))"
        by (rule pd_join_hd) (simp add: special_def)
      then have plain_rep: "plain_dollars rep" by (simp add: rep_def)
      have first: "\<not> starts_with (drop q (A @ match0 @ rest)) match0" if "q < length A" for q
      proof
        assume "starts_with (drop q (A @ match0 @ rest)) match0"
        then obtain r where "drop q s = CHR ''>'' # run @ ''</'' @ tag @ r"
          unfolding s0 [symmetric] by (auto simp: starts_with_append match0_def)
        with sentence_token_build [OF plain _ letter tag, of r] n
        have "sentence_token (drop q s) = Some (n, tag)" by simp
        from early [OF this] that A True show False by simp
      qed
      define s' where "s' = replace_first s match0 rep"
      have "s' = A @ get_substitution match0 A rest rep @ rest"
        unfolding s'_def using replace_first_at [OF first, of rep] s0 by simp
      with plain_rep have s': "s' = A @ CHR ''>'' # run @ ''.</'' @ tag @ rest"
        by (simp add: get_substitution_plain_dollars rep_def)
      then have s'_split: "s' = (A @ CHR ''>'' # run) @ CHR ''.'' # (''</'' @ tag @ rest)" by simp
      have "plain_dollars (CHR ''.'' # (''</'' @ tag @ rest))"
        using pd_join_hd [of "''.''" "''</'' @ tag @ rest"] pd_r by (simp add: special_def)
      with pd_l have pd': "plain_dollars s'"
        unfolding s'_split by (rule pd_join_hd) (simp add: special_def)
      have dot1: "dotted s s'"
        unfolding s'_split
        by (rule dotted.dot) (use s_split dotted.same [of s] last_run letter in simp_all)
      have inv: "\<forall>q<i'. \<forall>n' tag'. sentence_token (drop q s') = Some (n', tag') \<longrightarrow> n' \<le> 20"
      proof (intro allI impI)
        fix q n' tag'
        assume q: "q < i'" and t: "sentence_token (drop q s') = Some (n', tag')"
        consider "q < start" | "q = start" | "start < q" by linarith
        then show "n' \<le> 20"
        proof cases
          case 1
          with A have ne: "drop q A \<noteq> []" by simp
          from 1 A have eq': "drop q s' = drop q A @ CHR ''>'' # run @ ''.</'' @ tag @ rest"
            and eq: "drop q s = drop q A @ CHR ''>'' # run @ ''</'' @ tag @ rest"
            unfolding s' using s by simp_all
          have "sentence_token (drop q s') = sentence_token (drop q A @ ''>'')"
            unfolding eq' by (rule sentence_token_local [OF ne])
          moreover have "sentence_token (drop q s) = sentence_token (drop q A @ ''>'')"
            unfolding eq by (rule sentence_token_local [OF ne])
          ultimately have "sentence_token (drop q s') = sentence_token (drop q s)" by simp
          with t early [OF _ 1] show ?thesis by simp
        next
          case 2
          with A have "drop q s' = CHR ''>'' # run @ CHR ''.'' # CHR ''<'' # (CHR ''/'' # tag @ rest)"
            unfolding s' by simp
          with sentence_token_dotted [OF plain] t show ?thesis by simp
        next
          case 3
          have "CHR ''>'' \<notin> set (run @ ''.</'' @ tag)" using plain tag_no_gt [OF tag] by simp
          from inside_no_token [OF this, of A q "CHR ''>''" rest] 3 q A n
          have "sentence_token (drop q s') = None" unfolding s' i'_def by simp
          with t show ?thesis by simp
        qed
      qed
      have "length s' = length s + 1" using s s' by simp
      then have "length s' + 1 - i' < length s + 1 - i"
        using ex(1,2) inside n by (simp add: i'_def)
      from less.hyps [OF this pd' inv, of "k + 1"] obtain s'' k'' where
        r: "fix_sentences i' s' (k + 1) = Some (s'', k'')"
        and settled: "\<forall>q n tag. sentence_token (drop q s'') = Some (n, tag) \<longrightarrow> n \<le> 20"
        and d': "dotted s' s''"
        by blast
      from step True r have "fix_sentences i s k = Some (s'', k'')"
        by (simp add: i'_def s'_def match0_def rep_def)
      moreover from dotted_trans [OF d' dot1] have "dotted s s''" .
      ultimately show ?thesis using settled by blast
    qed
  qed
qed





lemma insert_dot_any:
  assumes dot: "CHR ''.'' \<notin> set ptail" and least: "least \<le> 1"
  shows "\<not> occurs (bracket_token (CHR ''['' # ptail) least) (X @ Y) \<Longrightarrow>
         (0 < least \<Longrightarrow> X \<noteq> [] \<Longrightarrow> last X \<noteq> last (CHR ''['' # ptail)) \<Longrightarrow>
         \<not> occurs (bracket_token (CHR ''['' # ptail) least) (X @ CHR ''.'' # Y)"
proof (induction X)
  case Nil
  have "bracket_token (CHR ''['' # ptail) least (CHR ''.'' # Y) = None"
    by (simp add: bracket_token_def span_token_def)
  with Nil show ?case by simp
next
  case (Cons x X')
  let ?p = "CHR ''['' # ptail"
  let ?tok = "bracket_token ?p least"
  let ?W = "x # X'"
  from Cons.prems(1) have no_head: "?tok (?W @ Y) = None" and no_tail: "\<not> occurs ?tok (X' @ Y)"
    by simp_all
  have last': "0 < least \<Longrightarrow> X' \<noteq> [] \<Longrightarrow> last X' \<noteq> last ?p"
    using Cons.prems(2) by simp
  from Cons.IH [OF no_tail last'] have tail: "\<not> occurs ?tok (X' @ CHR ''.'' # Y)" by simp
  have head: "?tok (?W @ CHR ''.'' # Y) = None"
  proof (rule ccontr)
    assume "?tok (?W @ CHR ''.'' # Y) \<noteq> None"
    from this [unfolded bracket_token_Some_iff]
    have sw: "starts_with (?W @ CHR ''.'' # Y) ?p"
      and close: "CHR '']'' \<in> set (drop (length ?p) (?W @ CHR ''.'' # Y))"
      and k: "least \<le> length (takeWhile (\<lambda>c. c \<noteq> CHR '']'') (drop (length ?p) (?W @ CHR ''.'' # Y)))"
      by simp_all
    from sw have tk: "take (length ?p) (?W @ CHR ''.'' # Y) = ?p" by (simp only: starts_with_iff)
    have long: "length ?p \<le> length ?W"
    proof (rule ccontr)
      assume "\<not> length ?p \<le> length ?W"
      then have "length ?W < length ?p" by simp
      with tk have "?p ! length ?W = CHR ''.''"
        by (metis nth_append_length nth_take)
      moreover from \<open>length ?W < length ?p\<close> have "?p ! length ?W \<in> set ?p" by (rule nth_mem)
      ultimately show False using dot by auto
    qed
    with tk have "take (length ?p) ?W = ?p" by simp
    then obtain W2 where W: "?W = ?p @ W2"
      by (metis append_take_drop_id)
    from W close have "CHR '']'' \<in> set (W2 @ CHR ''.'' # Y)" by simp
    then have close': "CHR '']'' \<in> set (W2 @ Y)" by auto
    have k': "least \<le> length (takeWhile (\<lambda>c. c \<noteq> CHR '']'') (W2 @ Y))"
    proof (cases "least = 0")
      case True
      then show ?thesis by simp
    next
      case False
      with least have l1: "least = 1" by simp
      have W2: "W2 \<noteq> []"
      proof
        assume "W2 = []"
        with W have "last ?W = last ?p" by simp
        with Cons.prems(2) l1 show False by simp
      qed
      then obtain y W3 where W2c: "W2 = y # W3" by (cases W2) auto
      with k W l1 have "y \<noteq> CHR '']''" by (auto split: if_splits)
      with W2c l1 show ?thesis by simp
    qed
    have "?tok (?W @ Y) \<noteq> None"
      unfolding bracket_token_Some_iff
      using W close' k' by (simp add: starts_with_iff)
    with no_head show False by simp
  qed
  from head tail show ?case by simp
qed

lemma dotted_keeps:
  assumes "\<And>X Y. P (X @ Y) \<Longrightarrow> X \<noteq> [] \<Longrightarrow> is_letter (last X) \<Longrightarrow> P (X @ CHR ''.'' # Y)"
  shows "dotted s s' \<Longrightarrow> P s \<Longrightarrow> P s'"
  by (induction rule: dotted.induct) (auto intro: assms)

lemma dotted_no_marker: "dotted s s' \<Longrightarrow> \<not> occurs marker_token s \<Longrightarrow> \<not> occurs marker_token s'"
proof (erule dotted_keeps [rotated])
  fix X Y
  assume "\<not> occurs marker_token (X @ Y)" and "X \<noteq> []" and "is_letter (last X)"
  then show "\<not> occurs marker_token (X @ CHR ''.'' # Y)"
    unfolding marker_token_def
    by (intro insert_dot_any) (auto dest: letter_not_colon)
qed



subsection \<open>Fences\<close>






subsection \<open>Template variables\<close>
















subsection \<open>Insufficient-evidence markers\<close>







subsection \<open>Fences after step 2\<close>










lemma manualPolishHTML_unfold:
  assumes "step5 (after_step4 html) = Some (p5, c5)"
  shows "manualPolishHTML html =
           Some (fst (step6 p5),
                 let changes = snd (step1 html) @ snd (step2 (fst (step1 html)))
                       @ snd (step3 (fst (step2 (fst (step1 html)))))
                       @ snd (step4 (fst (step3 (fst (step2 (fst (step1 html)))))))
                       @ c5 @ snd (step6 p5)
                 in if changes = [] then [no_changes] else changes)"
  using assms by (simp add: manualPolishHTML_def after_step4_def Let_def split_beta)

lemma first_pass:
  assumes "plain_dollars html"
  shows "\<exists>p5 c5. step5 (after_step4 html) = Some (p5, c5)
           \<and> step5 p5 = Some (p5, [])
           \<and> dotted (after_step4 html) p5"
proof -
  have "plain_dollars (after_step4 html)"
    unfolding after_step4_def
    by (intro step4_plain_dollars step3_plain_dollars step2_plain_dollars step1_plain_dollars assms)
  from fix_sentences_settles2 [OF this, of 0 0] obtain p5 k where
    r: "fix_sentences 0 (after_step4 html) 0 = Some (p5, k)"
    and settled: "\<forall>q n tag. sentence_token (drop q p5) = Some (n, tag) \<longrightarrow> n \<le> 20"
    and d: "dotted (after_step4 html) p5"
    by auto
  from fix_sentences_fixed [OF settled, of 0 0] have "step5 p5 = Some (p5, [])"
    by (simp add: step5_def step_entry_zero)
  moreover from r have "\<exists>c5. step5 (after_step4 html) = Some (p5, c5)" by (simp add: step5_def)
  ultimately show ?thesis using d by blast
qed

lemma manual_polish_no_marker2:
  assumes "plain_dollars html"
  shows "\<exists>out changes. manualPolishHTML html = Some (out, changes)
           \<and> count_matches marker_token out = 0"
proof -
  from first_pass [OF assms] obtain p5 c5 where
    s5: "step5 (after_step4 html) = Some (p5, c5)" and d: "dotted (after_step4 html) p5"
    by blast
  have "\<not> occurs marker_token (after_step4 html)"
    unfolding after_step4_def by (intro step4_no_marker step3_no_marker)
  from dotted_no_marker [OF d this] have "\<not> occurs marker_token (fst (step6 p5))"
    by (rule step6_no_marker)
  then have "count_matches marker_token (fst (step6 p5)) = 0" by (simp add: count_matches_zero)
  with manualPolishHTML_unfold [OF s5] show ?thesis by blast
qed










section \<open>C1: markers after the polish pass\<close>

text \<open>
  C1 (as stated): after the polish pass the text has no occurrence of the well-formed
  marker pattern. On the code three runs of \<^verbatim>\<open>polishHTML\<close> end with a marker in the text:
  a dry run returns its argument as it is; a generated text that has the two wrappers
  \<^verbatim>\<open><!DOCTYPE html>\<close> and \<^verbatim>\<open></html>\<close> is returned without a look at its markers; and
  step 5 of \<^verbatim>\<open>manualPolishHTML\<close> hands the sentence to \<^verbatim>\<open>String.prototype.replace\<close> as the
  replacement text, where a dollar sign followed by a backquote stands for the text before
  the match, so that a closing bracket from there completes a marker that was not
  well formed before.
\<close>

theorem C1_marker_survives_counterexample:
  "polishHTML True True (Inr []) no_percent ''<p>[LLM_PLACEHOLDER: custom_note]</p>''
     = Some (''<p>[LLM_PLACEHOLDER: custom_note]</p>'',
             [\<lparr> ctype = None, ccount = None, reason = ''Dry run - no changes made'' \<rparr>])
   \<and> count_matches marker_token ''<p>[LLM_PLACEHOLDER: custom_note]</p>'' = 1
   \<and> polishHTML False True (Inr ''<!DOCTYPE html><p>[LLM_PLACEHOLDER: custom_note]</p></html>'')
         no_percent ''<!DOCTYPE html><p>[LLM_PLACEHOLDER: custom_note]</p></html>''
     = Some (''<!DOCTYPE html><p>[LLM_PLACEHOLDER: custom_note]</p></html>'',
             [\<lparr> ctype = Some ''minor_polish'', ccount = None,
                 reason = ''Minor text improvements applied'' \<rparr>])
   \<and> count_matches marker_token
         ''<!DOCTYPE html><p>[LLM_PLACEHOLDER: custom_note]</p></html>'' = 1
   \<and> count_matches marker_token ''x]>aaaaaaaaaaaaaaaaaaaaaaa[LLM_PLACEHOLDER:$` b</p>'' = 0
   \<and> manualPolishHTML ''x]>aaaaaaaaaaaaaaaaaaaaaaa[LLM_PLACEHOLDER:$` b</p>''
     = Some (''x]>aaaaaaaaaaaaaaaaaaaaaaa[LLM_PLACEHOLDER:x] b.</p>'',
             [\<lparr> ctype = Some ''fix_punctuation'', ccount = Some 1,
                 reason = ''Added missing punctuation to 1 sentences'' \<rparr>])
   \<and> count_matches marker_token ''x]>aaaaaaaaaaaaaaaaaaaaaaa[LLM_PLACEHOLDER:x] b.</p>'' = 1"
  by code_simp

text \<open>
  C1 (amended): when \<^verbatim>\<open>polishHTML\<close> takes its deterministic path (no dry run, and the
  prompt is missing, the generation call throws, or the generated text lacks one of the
  two wrappers) on a text in which no dollar sign is directly followed by a dollar sign,
  an ampersand, a backquote or an apostrophe (an amount such as \<^verbatim>\<open>$4,200\<close> is allowed), it
  returns, and the text it returns has no match of the marker pattern
  \<^verbatim>\<open>\[LLM_PLACEHOLDER:[^\]]+\]\<close>.
\<close>

theorem C1_deterministic_polish_leaves_no_marker:
  assumes "deterministic_path dry prompt_found generated" and "plain_dollars html"
  shows "\<exists>out changes. polishHTML dry prompt_found generated percent html = Some (out, changes)
           \<and> count_matches marker_token out = 0"
  using manual_polish_no_marker2 [OF assms(2)] polishHTML_deterministic [OF assms(1)]
  by simp

theorem C1_deterministic_polish_leaves_no_marker_witness:
  "deterministic_path False False (Inr [])
   \<and> plain_dollars ''<p>[LLM_PLACEHOLDER: finding_summary] We lose $4,200 every single month</p>''
   \<and> count_matches marker_token
         ''<p>[LLM_PLACEHOLDER: finding_summary] We lose $4,200 every single month</p>'' = 1
   \<and> (\<exists>out changes. polishHTML False False (Inr []) no_percent
          ''<p>[LLM_PLACEHOLDER: finding_summary] We lose $4,200 every single month</p>''
            = Some (out, changes)
        \<and> count_matches marker_token out = 0)"
proof -
  have d: "deterministic_path False False (Inr [])" by (simp add: deterministic_path_def)
  have p: "plain_dollars
      ''<p>[LLM_PLACEHOLDER: finding_summary] We lose $4,200 every single month</p>''"
    by code_simp
  have c: "count_matches marker_token
      ''<p>[LLM_PLACEHOLDER: finding_summary] We lose $4,200 every single month</p>'' = 1"
    by code_simp
  from C1_deterministic_polish_leaves_no_marker [OF d p] d p c show ?thesis by blast
qed

section \<open>C2: the rate-limit fallback protocol inside one generation call\<close>




section \<open>C3: a batch response that is not JSON\<close>

text \<open>
  C3 (as stated): a batch response that cannot be parsed is asked for once more, and
  after a second failure the operation returns the input document unchanged. On the code
  the operation makes one generation call for a response in prose and throws
  \<^verbatim>\<open>LLM returned invalid JSON\<close>: there is no second call and no document is returned.
\<close>

theorem C3_no_retry_counterexample:
  "parseJSON parse_empty_object ''I could not produce the narratives.'' = Inl CouldNotParse
   \<and> fillAllNarratives parse_empty_object prose_reply False apply_empty sample_report
       = (Inl InvalidJSON, 1)
   \<and> fillAllNarratives parse_empty_object prose_reply True apply_empty sample_report
       = (Inl InvalidJSON, 1)"
  by code_simp

text \<open>
  C3 (amended): when the text of the first generation call cannot be parsed, the
  operation has made exactly that one call and throws \<^verbatim>\<open>LLM returned invalid JSON\<close>.
  When the first text can be parsed, refinement is not skipped and the text of the
  refinement call cannot be parsed, the operation has made two calls and answers what
  \<^verbatim>\<open>applyGeneratedContent\<close> gives for the content of the first call.
\<close>

theorem C3_parse_failure:
  "(llm 0 = Inr content \<and> parseJSON json_parse content = Inl err
      \<longrightarrow> fillAllNarratives json_parse llm skipRefinement applyGeneratedContent reportJson
            = (Inl InvalidJSON, 1))
   \<and> (llm 0 = Inr content \<and> parseJSON json_parse content = Inr generated
        \<and> \<not> skipRefinement
        \<and> llm 1 = Inr refined \<and> parseJSON json_parse refined = Inl err
        \<and> applyGeneratedContent reportJson generated = Inr filledReport
      \<longrightarrow> fillAllNarratives json_parse llm skipRefinement applyGeneratedContent reportJson
            = (Inr filledReport, 2))"
  by (simp add: fillAllNarratives_def)

theorem C3_parse_failure_witness:
  "prose_reply 0 = Inr ''I could not produce the narratives.''
   \<and> parseJSON parse_empty_object ''I could not produce the narratives.'' = Inl CouldNotParse
   \<and> fillAllNarratives parse_empty_object prose_reply False apply_empty sample_report
       = (Inl InvalidJSON, 1)
   \<and> cut_refinement 0 = Inr (''```json'' @ CHR 0x0A # ''{}'' @ CHR 0x0A # ''```'')
   \<and> parseJSON parse_empty_object (''```json'' @ CHR 0x0A # ''{}'' @ CHR 0x0A # ''```'')
       = Inr (JObj [])
   \<and> cut_refinement 1 = Inr ''{ document_title: ''
   \<and> parseJSON parse_empty_object ''{ document_title: '' = Inl CouldNotParse
   \<and> apply_empty sample_report (JObj []) = Inr sample_report
   \<and> fillAllNarratives parse_empty_object cut_refinement False apply_empty sample_report
       = (Inr sample_report, 2)"
proof -
  have a: "prose_reply 0 = Inr ''I could not produce the narratives.''"
    by (simp add: prose_reply_def)
  have b: "parseJSON parse_empty_object ''I could not produce the narratives.''
      = Inl CouldNotParse"
    by code_simp
  have c: "cut_refinement 0 = Inr (''```json'' @ CHR 0x0A # ''{}'' @ CHR 0x0A # ''```'')"
    by (simp add: cut_refinement_def)
  have d: "parseJSON parse_empty_object (''```json'' @ CHR 0x0A # ''{}'' @ CHR 0x0A # ''```'')
      = Inr (JObj [])"
    by code_simp
  have e: "cut_refinement 1 = Inr ''{ document_title: ''"
    by (simp add: cut_refinement_def)
  have f: "parseJSON parse_empty_object ''{ document_title: '' = Inl CouldNotParse"
    by code_simp
  have g: "apply_empty sample_report (JObj []) = Inr sample_report"
    by (simp add: apply_empty_def)
  note inst1 = C3_parse_failure [where llm = prose_reply and json_parse = parse_empty_object
      and content = "''I could not produce the narratives.''" and err = CouldNotParse
      and skipRefinement = False and applyGeneratedContent = apply_empty
      and reportJson = sample_report, THEN conjunct1]
  note inst2 = C3_parse_failure [where llm = cut_refinement
      and json_parse = parse_empty_object
      and content = "''```json'' @ CHR 0x0A # ''{}'' @ CHR 0x0A # ''```''"
      and generated = "JObj []" and err = CouldNotParse and refined = "''{ document_title: ''"
      and skipRefinement = False and applyGeneratedContent = apply_empty
      and reportJson = sample_report and filledReport = sample_report, THEN conjunct2]
  from inst1 a b have h: "fillAllNarratives parse_empty_object prose_reply False apply_empty
      sample_report = (Inl InvalidJSON, 1)"
    by (simp only: simp_thms)
  from inst2 c d e f g have i: "fillAllNarratives parse_empty_object cut_refinement False
      apply_empty sample_report = (Inr sample_report, 2)"
    by (simp only: simp_thms)
  from a b c d e f g h i show ?thesis by (simp only: simp_thms)
qed

section \<open>C4: the model pointer only moves forward\<close>

text \<open>
  C4: for any service (any sequence of rate-limited and other outcomes) and a fallback
  order without repetitions, a generation call never lowers the rank of the current-model
  pointer; and in the trace of the requests of a whole run the ranks never decrease, so
  that once a request has gone to another model than an earlier one, no later request
  goes to that earlier model again.
\<close>

theorem C4_monotone_degradation:
  assumes "distinct (MODEL_FALLBACK_ORDER cfg)"
  shows "rank cfg (currentModel ex) \<le> rank cfg (currentModel (snd (callLLM cfg fetch p ex)))
    \<and> (let F = fetched (run_calls cfg fetch ps (new_executor m0)) in
         (\<forall>i j. i < j \<and> j < length F \<longrightarrow> rank cfg (F ! i) \<le> rank cfg (F ! j))
       \<and> (\<forall>i j k. i < j \<and> j < k \<and> k < length F \<and> F ! j \<noteq> F ! i \<longrightarrow> F ! k \<noteq> F ! i))"
proof -
  define F where "F = fetched (run_calls cfg fetch ps (new_executor m0))"
  have "trace_ok cfg (run_calls cfg fetch ps (new_executor m0))"
    by (rule run_calls_trace_ok) (rule new_executor_trace_ok)
  from trace_sorted [OF assms this] have srt: "sorted_wrt (moved cfg) F"
    by (simp add: F_def sorted_wrt_append)
  have mono: "rank cfg (F ! i) \<le> rank cfg (F ! j)" if "i < j" "j < length F" for i j
    using sorted_wrt_nth [OF srt that] by (auto simp: moved_def)
  have never: "F ! k \<noteq> F ! i" if "i < j" "j < k" "k < length F" "F ! j \<noteq> F ! i" for i j k
  proof
    assume eq: "F ! k = F ! i"
    from that have "j < length F" by simp
    from sorted_wrt_nth [OF srt that(1) this] that(4) have "rank cfg (F ! i) < rank cfg (F ! j)"
      by (auto simp: moved_def)
    moreover from sorted_wrt_nth [OF srt that(2) that(3)] eq that(4)
    have "rank cfg (F ! j) < rank cfg (F ! i)"
      by (auto simp: moved_def)
    ultimately show False by simp
  qed
  have ptr: "rank cfg (currentModel ex) \<le> rank cfg (currentModel (snd (callLLM cfg fetch p ex)))"
    using callLLM_pointer_moved [OF assms, of ex fetch p] by (auto simp: moved_def)
  from ptr mono never show ?thesis
    unfolding Let_def F_def [symmetric] by blast
qed


theorem C4_monotone_degradation_witness:
  "distinct (MODEL_FALLBACK_ORDER three_models)
   \<and> rank three_models (currentModel (new_executor ''gemini-2.5-flash''))
       \<le> rank three_models (currentModel (snd (callLLM three_models flaky ''p1''
            (new_executor ''gemini-2.5-flash''))))
   \<and> fetched (run_calls three_models flaky [''p1'', ''p2'', ''p3''] (new_executor ''gemini-2.5-flash'')) ! 3
       \<noteq> fetched (run_calls three_models flaky [''p1'', ''p2'', ''p3''] (new_executor ''gemini-2.5-flash'')) ! 0"
proof -
  let ?F = "fetched (run_calls three_models flaky [''p1'', ''p2'', ''p3''] (new_executor ''gemini-2.5-flash''))"
  have d: "distinct (MODEL_FALLBACK_ORDER three_models)" by (simp add: three_models_def)
  have len: "3 < length ?F" by (simp only: flaky_trace) simp
  have ne: "?F ! 1 \<noteq> ?F ! 0" by (simp only: flaky_trace) simp
  note inst = C4_monotone_degradation [OF d, of "new_executor ''gemini-2.5-flash''" flaky "''p1''"
      "[''p1'', ''p2'', ''p3'']" "''gemini-2.5-flash''", unfolded Let_def]
  from inst have 1: "rank three_models (currentModel (new_executor ''gemini-2.5-flash''))
       \<le> rank three_models (currentModel (snd (callLLM three_models flaky ''p1''
            (new_executor ''gemini-2.5-flash''))))"
    by (rule conjunct1)
  from inst have "\<forall>i j k. i < j \<and> j < k \<and> k < length ?F \<and> ?F ! j \<noteq> ?F ! i \<longrightarrow> ?F ! k \<noteq> ?F ! i"
    by (elim conjE)
  then have "0 < (1::nat) \<and> 1 < (3::nat) \<and> 3 < length ?F \<and> ?F ! 1 \<noteq> ?F ! 0 \<longrightarrow> ?F ! 3 \<noteq> ?F ! 0"
    by (elim allE)
  with len ne have 3: "?F ! 3 \<noteq> ?F ! 0" by simp
  from d 1 3 show ?thesis by (intro conjI)
qed

section \<open>C5: a second polish pass\<close>




section \<open>C6: an array output replaces the parent array\<close>

text \<open>
  C6: in a document where \<^verbatim>\<open>a.b\<close> is a one-element array holding a marker string, the
  write of an array of three strings for the placeholder at \<^verbatim>\<open>a.b[0]\<close> (a prompt of output
  type \<^verbatim>\<open>array_of_strings\<close>) succeeds, and afterwards the value at \<^verbatim>\<open>a.b\<close> is the
  three-element array and the value at \<^verbatim>\<open>a.b[0]\<close> is its first string, not an array. The
  other properties of the document and of \<^verbatim>\<open>a\<close> are arbitrary.
\<close>

theorem C6_array_retarget:
  assumes a: "map_of kvs ''a'' = Some (JObj kvs2)"
    and b: "map_of kvs2 ''b'' = Some (JArr [JStr marker])"
  shows "\<exists>doc'. write_output (JObj kvs) ''array_of_strings'' (JArr [JStr s1, JStr s2, JStr s3]) ''a.b[0]''
            = Inr doc'
         \<and> getAtPath doc' ''a.b'' = Inr (JArr [JStr s1, JStr s2, JStr s3])
         \<and> getAtPath doc' ''a.b[0]'' = Inr (JStr s1)"
proof -
  let ?out = "JArr [JStr s1, JStr s2, JStr s3]"
  let ?inner = "JObj (alist_update ''b'' ?out kvs2)"
  let ?doc = "JObj (alist_update ''a'' ?inner kvs)"
  have na: "''a'' \<noteq> ''__proto__''" and nb: "''b'' \<noteq> ''__proto__''" by simp_all
  have target: "targetPath_for ''array_of_strings'' ?out ''a.b[0]'' = ''a.b''"
    by (simp add: targetPath_for_def is_array_def path_parts_examples)
  have w: "write_output (JObj kvs) ''array_of_strings'' ?out ''a.b[0]'' = Inr ?doc"
    unfolding write_output_def target setAtPath_def path_parts_examples
    using own_key [OF a] a by (simp add: set_prop_object [OF na] set_prop_object [OF nb])
  have g1: "getAtPath ?doc ''a.b'' = Inr ?out"
    unfolding getAtPath_def path_parts_examples
    by (simp add: map_of_alist_update)
  have g2: "getAtPath ?doc ''a.b[0]'' = Inr (JStr s1)"
    unfolding getAtPath_def path_parts_examples
    by (simp add: map_of_alist_update path_parts_examples)
  from w g1 g2 show ?thesis by blast
qed

theorem C6_array_retarget_witness:
  "getAtPath (JObj [(''a'', JObj [(''b'', JArr [JStr ''x'', JStr ''y'', JStr ''z''])])]) ''a.b[0]''
     = Inr (JStr ''x'')"
proof -
  have a: "map_of [(''a'', JObj [(''b'', JArr [JStr ''[LLM_PLACEHOLDER: scope_items]''])])] ''a''
      = Some (JObj [(''b'', JArr [JStr ''[LLM_PLACEHOLDER: scope_items]''])])"
    by simp
  have b: "map_of [(''b'', JArr [JStr ''[LLM_PLACEHOLDER: scope_items]''])] ''b''
      = Some (JArr [JStr ''[LLM_PLACEHOLDER: scope_items]''])"
    by simp
  from C6_array_retarget [OF a b, of "''x''" "''y''" "''z''"] retarget_example
  show ?thesis by (elim exE conjE) simp
qed

section \<open>C7: the next-model lookup on an unknown model\<close>

text \<open>
  C7 (as stated): a model id that is not in the ranked chain makes the lookup signal an
  UnknownModel error and not a silent none. On the code the lookup answers \<open>None\<close>
  for \<^verbatim>\<open>gpt-4o\<close>, which is a key of \<^verbatim>\<open>PUTER_MODELS\<close> and not a member of the fallback
  order: exactly what it answers for the last member of the chain.
\<close>

theorem C7_unknown_model_counterexample:
  "''gpt-4o'' \<notin> set PUTER_FALLBACK_ORDER
   \<and> puter_getNextFallbackModel ''gpt-4o'' = None
   \<and> puter_getNextFallbackModel ''llama-3.1-70b'' = None"
  by code_simp

text \<open>
  C7 (amended): the lookup never signals an error. It returns none exactly when the
  model id is not in the chain or is its last member, and for the member at any other
  position it returns the member that follows.
\<close>

theorem C7_next_none_iff_unknown_or_last:
  "(puter_getNextFallbackModel m = None
      \<longleftrightarrow> m \<notin> set PUTER_FALLBACK_ORDER \<or> m = last PUTER_FALLBACK_ORDER)
   \<and> (\<forall>k. Suc k < length PUTER_FALLBACK_ORDER \<longrightarrow>
         puter_getNextFallbackModel (PUTER_FALLBACK_ORDER ! k)
           = Some (PUTER_FALLBACK_ORDER ! Suc k))"
proof (intro conjI allI impI)
  fix k
  assume "Suc k < length PUTER_FALLBACK_ORDER"
  then show "puter_getNextFallbackModel (PUTER_FALLBACK_ORDER ! k)
      = Some (PUTER_FALLBACK_ORDER ! Suc k)"
    unfolding puter_getNextFallbackModel_def
    by (rule next_in_order_at [OF distinct_PUTER])
next
  show "puter_getNextFallbackModel m = None
      \<longleftrightarrow> m \<notin> set PUTER_FALLBACK_ORDER \<or> m = last PUTER_FALLBACK_ORDER"
  proof (cases "m \<in> set PUTER_FALLBACK_ORDER")
    case False
    then show ?thesis
      by (simp add: puter_getNextFallbackModel_def next_in_order_unknown)
  next
    case True
    from puter_members [OF True] show ?thesis
    proof (elim disjE)
      assume "m = ''gpt-4o-mini''"
      with True show ?thesis
        by (simp only: puter_next_values puter_last puter_not_last) simp
    next
      assume "m = ''claude-3-haiku''"
      with True show ?thesis
        by (simp only: puter_next_values puter_last puter_not_last) simp
    next
      assume "m = ''gemini-2.0-flash''"
      with True show ?thesis
        by (simp only: puter_next_values puter_last puter_not_last) simp
    next
      assume "m = ''llama-3.1-70b''"
      with True show ?thesis
        by (simp only: puter_next_values puter_last) simp
    qed
  qed
qed

theorem C7_next_none_iff_unknown_or_last_witness:
  "puter_getNextFallbackModel ''claude-3-haiku'' = Some ''gemini-2.0-flash''
   \<and> puter_getNextFallbackModel ''mistral-large'' = None"
proof -
  have k: "Suc 1 < length PUTER_FALLBACK_ORDER"
    by code_simp
  have u: "''mistral-large'' \<notin> set PUTER_FALLBACK_ORDER"
    by code_simp
  have n: "PUTER_FALLBACK_ORDER ! 1 = ''claude-3-haiku''"
    "PUTER_FALLBACK_ORDER ! Suc 1 = ''gemini-2.0-flash''"
    by code_simp+
  from C7_next_none_iff_unknown_or_last [of "''mistral-large''"] k u n
  show ?thesis
    by metis
qed

section \<open>C10: reading back what setAtPath wrote\<close>

text \<open>
  C10 (as stated): for every document, value and path, \<^verbatim>\<open>getAtPath\<close> after \<^verbatim>\<open>setAtPath\<close>
  returns the value. On the code \<^verbatim>\<open>setAtPath\<close> does not return for every document: where
  the path runs into an existing string the assignment to a property of that string
  throws a TypeError, as for the document \<^verbatim>\<open>{a: "x"}\<close> and the path \<^verbatim>\<open>a.b\<close>. And where it
  returns, the value need not come back: assigning the string \<^verbatim>\<open>"2"\<close> to the \<^verbatim>\<open>length\<close> of
  an array of three elements cuts the array to two, and the path then gives the number 2.
\<close>

theorem C10_round_trip_counterexample:
  "setAtPath (JObj [(''a'', JStr ''x'')]) ''a.b'' (JStr ''v'') = Inl TypeError
   \<and> setAtPath (JObj [(''a'', JArr [JNum 1, JNum 2, JNum 3])]) ''a.length'' (JStr ''2'')
       = Inr (JObj [(''a'', JArr [JNum 1, JNum 2])])
   \<and> getAtPath (JObj [(''a'', JArr [JNum 1, JNum 2])]) ''a.length'' = Inr (JNum 2)
   \<and> JNum 2 \<noteq> JStr ''2''"
  by code_simp

text \<open>
  C10 (amended): for every document, every value and every path whose last segment is
  neither \<^verbatim>\<open>length\<close> nor \<^verbatim>\<open>__proto__\<close>, whenever \<^verbatim>\<open>setAtPath\<close> returns normally on a walk
  through own members of objects and elements of arrays, \<^verbatim>\<open>getAtPath\<close> with the same path
  on the updated document returns exactly the value written.
\<close>

theorem C10_get_after_successful_set:
  "setAtPath obj p v = Inr obj' \<Longrightarrow> last (path_parts p) \<noteq> ''length'' \<Longrightarrow>
   last (path_parts p) \<noteq> ''__proto__'' \<Longrightarrow> getAtPath obj' p = Inr v"
  unfolding setAtPath_def getAtPath_def
  by (rule set_parts_then_get [OF path_parts_nonempty])

theorem C10_get_after_successful_set_witness:
  "setAtPath (JObj []) ''a.b[2].c'' (JStr ''v'')
     = Inr (JObj [(''a'', JObj [(''b'', JArr [JUndefined, JUndefined, JObj [(''c'', JStr ''v'')]])])])
   \<and> last (path_parts ''a.b[2].c'') \<noteq> ''length''
   \<and> last (path_parts ''a.b[2].c'') \<noteq> ''__proto__''
   \<and> getAtPath (JObj [(''a'', JObj [(''b'', JArr [JUndefined, JUndefined, JObj [(''c'', JStr ''v'')]])])])
         ''a.b[2].c'' = Inr (JStr ''v'')"
proof -
  have l: "last (path_parts ''a.b[2].c'') \<noteq> ''length''"
    and q: "last (path_parts ''a.b[2].c'') \<noteq> ''__proto__''"
    by code_simp+
  from C10_get_after_successful_set [OF fresh_path_set l q] fresh_path_set l q
  show ?thesis by (intro conjI)
qed

end
